theory Spec2Isabelle
  imports Main "HOL-Library.Word" "HOL-Library.Sublist"
begin

unbundle bit_operations_syntax

section \<open>Machine integers, C strings and the wire encoding\<close>

text \<open>
  The tool is one C file, \<^verbatim>\<open>main.c\<close>. Its integers are \<^verbatim>\<open>uint8_t\<close> and
  \<^verbatim>\<open>uint32_t\<close>; they are modelled as words, so that every assignment and every
  \<^verbatim>\<open>+=\<close> of the source wraps as it does in C. File names, paths and file contents are
  lists of bytes. The host is little-endian with a 64-bit \<^verbatim>\<open>size_t\<close> and
  \<^verbatim>\<open>long\<close> (the platform \<^verbatim>\<open>__builtin_bswap32\<close> is used on to obtain big-endian
  fields).
\<close>

type_synonym byte = "8 word"
type_synonym u32 = "32 word"
type_synonym bytes = "byte list"

definition MSF_MAGIC :: bytes where
  "MSF_MAGIC = [0x00, 0x00, 0x03, 0xE7, 0x00, 0x00, 0x00, 0x02]"

definition MSF_MAX_NAMELEN :: nat where
  "MSF_MAX_NAMELEN = 255"

text \<open>\<^verbatim>\<open>char path[MSF_MAX_NAMELEN * 2 + 1]\<close>: the size of every path buffer.\<close>

definition PATH_SIZE :: nat where
  "PATH_SIZE = MSF_MAX_NAMELEN * 2 + 1"

text \<open>\<^verbatim>\<open>sizeof(struct msf_header)\<close>: eight magic bytes and one \<^verbatim>\<open>uint32_t\<close>.\<close>

definition sizeof_msf_header :: u32 where
  "sizeof_msf_header = 12"

text \<open>
  \<^verbatim>\<open>sizeof(struct msf_entry)\<close>: two \<^verbatim>\<open>uint32_t\<close>, one \<^verbatim>\<open>uint8_t\<close> and 256 name
  bytes, padded to the alignment of \<^verbatim>\<open>uint32_t\<close>.
\<close>

definition sizeof_msf_entry :: nat where
  "sizeof_msf_entry = 268"

definition slash :: byte where
  "slash = 0x2F"

definition backslash :: byte where
  "backslash = 0x5C"

definition dot :: byte where
  "dot = 0x2E"

text \<open>A C string is the bytes of its buffer before the first NUL.\<close>

definition c_str :: "bytes \<Rightarrow> bytes" where
  "c_str s = takeWhile (\<lambda>c. c \<noteq> 0) s"

definition strlen :: "bytes \<Rightarrow> nat" where
  "strlen s = length (c_str s)"

text \<open>
  \<^verbatim>\<open>snprintf(path, n, "%s/%s", a, b)\<close>: the formatted string, cut to \<open>n - 1\<close>
  bytes when it does not fit the buffer.
\<close>

definition snprintf_path :: "nat \<Rightarrow> bytes \<Rightarrow> bytes \<Rightarrow> bytes" where
  "snprintf_path n a b = take (n - 1) (c_str a @ [slash] @ c_str b)"

definition path_truncated :: "nat \<Rightarrow> bytes \<Rightarrow> bytes \<Rightarrow> bool" where
  "path_truncated n a b = (n - 1 < strlen a + 1 + strlen b)"

definition bswap32 :: "u32 \<Rightarrow> u32" where
  "bswap32 v =
     push_bit 24 (v AND 0xFF) OR push_bit 8 (v AND 0xFF00) OR
     drop_bit 8 (v AND 0xFF0000) OR drop_bit 24 (v AND 0xFF000000)"

text \<open>The four bytes of a \<^verbatim>\<open>uint32_t\<close> object in memory, and the object four bytes hold.\<close>

definition store32 :: "u32 \<Rightarrow> bytes" where
  "store32 v = [ucast v, ucast (drop_bit 8 v), ucast (drop_bit 16 v), ucast (drop_bit 24 v)]"

definition load32 :: "bytes \<Rightarrow> u32" where
  "load32 bs =
     (case bs of
        [b0, b1, b2, b3] \<Rightarrow>
          ucast b0 OR push_bit 8 (ucast b1) OR push_bit 16 (ucast b2) OR push_bit 24 (ucast b3)
      | _ \<Rightarrow> 0)"

text \<open>
  \<^verbatim>\<open>write8\<close> and \<^verbatim>\<open>write32be\<close>: the bytes handed to \<^verbatim>\<open>fwrite\<close>. The source
  ignores the result of every \<^verbatim>\<open>fwrite\<close>; the model's output is the sequence of bytes
  written.
\<close>

definition write8 :: "byte \<Rightarrow> bytes" where
  "write8 v = [v]"

definition write32be :: "u32 \<Rightarrow> bytes" where
  "write32be v = store32 (bswap32 v)"

section \<open>The environment\<close>

text \<open>
  What the C library decides and the source cannot: whether an allocation of a
  given number of bytes succeeds, and the indeterminate content of memory that was
  allocated but never written (\<^verbatim>\<open>realloc\<close>'s new bytes, a local left unset by a short
  \<^verbatim>\<open>fread\<close>).
\<close>

record env =
  alloc_ok :: "nat \<Rightarrow> bool"
  junk :: "nat \<Rightarrow> byte"

text \<open>
  Diagnostics on \<^verbatim>\<open>stderr\<close>, one constructor per \<^verbatim>\<open>fprintf(stderr, ...)\<close> of the
  source, with the arguments it prints. The progress lines on \<^verbatim>\<open>stdout\<close> are not
  modelled.
\<close>

datatype diag =
    ErrOpenDir bytes
  | ErrStat bytes
  | ErrTableAlloc
  | ErrBufAlloc u32
  | ErrRead bytes
  | ErrMagic
  | ErrUnpackTableAlloc
  | WarnNameLen nat nat
  | ErrOpenWrite bytes

text \<open>
  Two situations leave what this model determines. \<open>PathTruncated\<close>: a path did not
  fit its 511-byte buffer, so that the C code goes on with a cut path that names some
  other file. \<open>BufferOverrun\<close>: the C code reads or writes outside an allocated block
  (a copy buffer whose 32-bit size wrapped, a table index after the 32-bit count
  wrapped, a name taken from beyond the end of the path). The model stops there and
  says so.
\<close>

datatype fault = PathTruncated | BufferOverrun

text \<open>
  How a run ends: \<^verbatim>\<open>return ret\<close>, the failed \<^verbatim>\<open>assert\<close> of \<^verbatim>\<open>msf_pack\<close>
  (\<^verbatim>\<open>abort()\<close>), or one of the two faults.
\<close>

datatype outcome = Returned int | AssertFailed | Stopped fault

text \<open>
  The copy buffer \<^verbatim>\<open>buf\<close> of \<^verbatim>\<open>msf_pack\<close> and \<^verbatim>\<open>msf_unpack\<close> with its recorded
  size \<^verbatim>\<open>buflen\<close>. The model keeps the bytes of the block that have been written;
  the bytes of the block after them are indeterminate. \<^verbatim>\<open>realloc\<close> keeps the content
  up to the new size.
\<close>

definition realloc :: "bytes \<Rightarrow> nat \<Rightarrow> bytes" where
  "realloc buf n = take n buf"

text \<open>
  \<^verbatim>\<open>if (len > buflen) { buflen = len + 1024 * 1024; buf = realloc(buf, buflen); ... }\<close>.
  The result is the new buffer and size, and whether \<^verbatim>\<open>realloc\<close> returned a block.
\<close>

definition ensure_buf :: "env \<Rightarrow> u32 \<Rightarrow> bytes \<times> u32 \<Rightarrow> bool \<times> bytes \<times> u32" where
  "ensure_buf env n b =
     (case b of (buf, buflen) \<Rightarrow>
        if buflen < n then
          (let buflen' = n + 1024 * 1024 in
           if alloc_ok env (unat buflen') then (True, realloc buf (unat buflen'), buflen')
           else (False, [], buflen'))
        else (True, buf, buflen))"

text \<open>
  \<^verbatim>\<open>fread(buf, n, 1, f)\<close> into a buffer: the bytes the stream still has, at most
  \<open>n\<close>, overwrite the front of the buffer; the rest of the buffer stays.
  \<^verbatim>\<open>fwrite(buf, n, 1, f)\<close> writes the first \<open>n\<close> bytes of the buffer.
\<close>

definition fread_into :: "bytes \<Rightarrow> bytes \<Rightarrow> nat \<Rightarrow> bytes" where
  "fread_into buf avail n = (let got = take n avail in got @ drop (length got) buf)"

definition buf_bytes :: "env \<Rightarrow> bytes \<Rightarrow> nat \<Rightarrow> bytes" where
  "buf_bytes env buf n = take n buf @ map (junk env) [length buf ..< n]"

section \<open>The source tree\<close>

text \<open>
  The directory tree \<^verbatim>\<open>msf_walk\<close> scans. A regular file has its content and whether
  \<^verbatim>\<open>fopen(path, "rb")\<close> succeeds on it; a directory has its entries in \<^verbatim>\<open>readdir\<close>
  order, each a name (one path component) and the node \<^verbatim>\<open>stat\<close> finds there;
  \<open>NoOpenDir\<close> is a directory \<^verbatim>\<open>opendir\<close> fails on; \<open>Special\<close> is neither a regular file
  nor a directory; on \<open>NoStat\<close>, \<^verbatim>\<open>stat\<close> fails. The tree does not change during a run.
\<close>

datatype fsnode =
    Reg bool bytes
  | Dir "(bytes \<times> fsnode) list"
  | NoOpenDir
  | Special
  | NoStat

datatype st_mode = S_IFDIR | S_IFREG | S_IFOTHER

text \<open>\<^verbatim>\<open>stat\<close>: the file type and \<^verbatim>\<open>st_size\<close>, or failure.\<close>

fun stat :: "fsnode \<Rightarrow> (st_mode \<times> nat) option" where
  "stat (Reg r c) = Some (S_IFREG, length c)"
| "stat (Dir es) = Some (S_IFDIR, 0)"
| "stat NoOpenDir = Some (S_IFDIR, 0)"
| "stat Special = Some (S_IFOTHER, 0)"
| "stat NoStat = None"

text \<open>\<^verbatim>\<open>dent->d_name[0] == '.'\<close>\<close>

fun hidden :: "bytes \<Rightarrow> bool" where
  "hidden [] = False"
| "hidden (c # cs) = (c = dot)"

text \<open>
  Opening a file of the tree by its path below the root: the path is split at
  \<^verbatim>\<open>/\<close>, empty components are passed over, and each component selects the entry of
  that name. \<^verbatim>\<open>fopen(path, "rb")\<close> gives the content of a readable regular file; on a
  directory it succeeds and every read from it fails; otherwise it returns \<^verbatim>\<open>NULL\<close>.
\<close>

fun split_on :: "'a \<Rightarrow> 'a list \<Rightarrow> 'a list list" where
  "split_on d [] = [[]]"
| "split_on d (x # xs) =
     (if x = d then [] # split_on d xs
      else (case split_on d xs of [] \<Rightarrow> [[x]] | y # ys \<Rightarrow> (x # y) # ys))"

fun resolve :: "fsnode \<Rightarrow> bytes list \<Rightarrow> fsnode option"
  and resolve_in :: "(bytes \<times> fsnode) list \<Rightarrow> bytes \<Rightarrow> bytes list \<Rightarrow> fsnode option" where
  "resolve n [] = Some n"
| "resolve (Dir es) (c # cs) = resolve_in es c cs"
| "resolve (Reg r x) (c # cs) = None"
| "resolve NoOpenDir (c # cs) = None"
| "resolve Special (c # cs) = None"
| "resolve NoStat (c # cs) = None"
| "resolve_in [] c cs = None"
| "resolve_in ((nm, n) # rest) c cs = (if nm = c then resolve n cs else resolve_in rest c cs)"

definition fopen_rb :: "fsnode \<Rightarrow> bytes \<Rightarrow> bytes option" where
  "fopen_rb root rel =
     (if rel \<noteq> [] \<and> last rel = slash then
        (case resolve root (filter (\<lambda>c. c \<noteq> []) (split_on slash rel)) of
           Some (Dir es) \<Rightarrow> Some []
         | _ \<Rightarrow> None)
      else
        (case resolve root (filter (\<lambda>c. c \<noteq> []) (split_on slash rel)) of
           Some (Reg r c) \<Rightarrow> (if r then Some c else None)
         | Some (Dir es) \<Rightarrow> Some []
         | _ \<Rightarrow> None))"

section \<open>The entry table and the directory scanner\<close>

text \<open>
  \<^verbatim>\<open>struct msf_entry\<close>. \<open>e_name\<close> holds the bytes of the \<^verbatim>\<open>name\<close> buffer that were
  written; the buffer's next byte is NUL.
\<close>

record msf_entry =
  e_ofs :: u32
  e_len :: u32
  e_namelen :: byte
  e_name :: bytes

text \<open>
  What \<^verbatim>\<open>msf_walk\<close> changes through its pointer arguments: the table \<^verbatim>\<open>*ent\<close>, the
  counter \<^verbatim>\<open>*datastart\<close>, and the diagnostics printed so far.
\<close>

record walk_state =
  ws_ent :: "msf_entry list"
  ws_datastart :: u32
  ws_err :: "diag list"

text \<open>
  \<^verbatim>\<open>msf_walk(dirpath, baselen, ent, datastart, fcount)\<close> on the node found at
  \<^verbatim>\<open>dirpath\<close>; \<open>walk_entries\<close> is its \<^verbatim>\<open>while ((dent = readdir(dir)) != NULL)\<close> loop
  over the entries still to come. The result is the returned count with the state
  left behind. Every error path of the source is \<^verbatim>\<open>return 0\<close>, and the recursive
  call is \<^verbatim>\<open>fcount = msf_walk(...)\<close> with no test of the result: the model does the
  same.

  For a regular file: \<^verbatim>\<open>i = fcount++\<close>; the table is reallocated to \<open>fcount\<close>
  entries, which keeps the first \<open>i\<close>; entry \<open>i\<close> is filled in;
  \<^verbatim>\<open>namelen = strlen(path) - baselen\<close> is stored in a \<^verbatim>\<open>uint8_t\<close>.
\<close>

fun msf_walk :: "env \<Rightarrow> fsnode \<Rightarrow> bytes \<Rightarrow> u32 \<Rightarrow> walk_state \<Rightarrow> u32 \<Rightarrow> fault + (u32 \<times> walk_state)"
  and walk_entries ::
    "env \<Rightarrow> (bytes \<times> fsnode) list \<Rightarrow> bytes \<Rightarrow> u32 \<Rightarrow> walk_state \<Rightarrow> u32 \<Rightarrow> fault + (u32 \<times> walk_state)"
  where
  "msf_walk env (Dir es) dirpath baselen st fcount = walk_entries env es dirpath baselen st fcount"
| "msf_walk env (Reg r c) dirpath baselen st fcount =
     Inr (0, st\<lparr>ws_err := ws_err st @ [ErrOpenDir dirpath]\<rparr>)"
| "msf_walk env NoOpenDir dirpath baselen st fcount =
     Inr (0, st\<lparr>ws_err := ws_err st @ [ErrOpenDir dirpath]\<rparr>)"
| "msf_walk env Special dirpath baselen st fcount =
     Inr (0, st\<lparr>ws_err := ws_err st @ [ErrOpenDir dirpath]\<rparr>)"
| "msf_walk env NoStat dirpath baselen st fcount =
     Inr (0, st\<lparr>ws_err := ws_err st @ [ErrOpenDir dirpath]\<rparr>)"
| "walk_entries env [] dirpath baselen st fcount = Inr (fcount, st)"
| "walk_entries env ((d_name, node) # rest) dirpath baselen st fcount =
     (if hidden d_name then walk_entries env rest dirpath baselen st fcount
      else if path_truncated PATH_SIZE dirpath d_name then Inl PathTruncated
      else
        (let path = snprintf_path PATH_SIZE dirpath d_name in
         case stat node of
           None \<Rightarrow> Inr (0, st\<lparr>ws_err := ws_err st @ [ErrStat path]\<rparr>)
         | Some (mode, st_size) \<Rightarrow>
             if mode = S_IFDIR then
               (case msf_walk env node path baselen st fcount of
                  Inl f \<Rightarrow> Inl f
                | Inr (fcount', st') \<Rightarrow> walk_entries env rest dirpath baselen st' fcount')
             else if mode = S_IFREG then
               (let i = fcount; fcount' = fcount + 1 in
                if \<not> alloc_ok env (unat fcount' * sizeof_msf_entry) then
                  Inr (0, st\<lparr>ws_ent := [], ws_err := ws_err st @ [ErrTableAlloc]\<rparr>)
                else if fcount' = 0 \<or> strlen path < unat baselen then Inl BufferOverrun
                else
                  (let nl = (of_nat (strlen path) - ucast baselen :: byte);
                       e = \<lparr>e_ofs = 0, e_len = of_nat st_size, e_namelen = nl,
                            e_name = take (unat nl) (drop (unat baselen) path)\<rparr>
                   in walk_entries env rest dirpath baselen
                        (st\<lparr>ws_ent := take (unat i) (ws_ent st) @ [e],
                            ws_datastart := ws_datastart st + (4 * 2 + 1 + ucast nl)\<rparr>)
                        fcount'))
             else walk_entries env rest dirpath baselen st fcount))"

section \<open>Pack\<close>

text \<open>
  What a run of \<^verbatim>\<open>msf_pack\<close> leaves: how it ended, the bytes written to the archive
  stream, the diagnostics, and the table as it stood.
\<close>

record pack_result =
  pr_status :: outcome
  pr_out :: bytes
  pr_err :: "diag list"
  pr_ent :: "msf_entry list"

text \<open>
  The table loop: \<^verbatim>\<open>ent[i].ofs = curofs\<close>, the four fields are written, and
  \<^verbatim>\<open>curofs += ent[i].len\<close>. The result is the table with its offsets and the bytes
  written.
\<close>

fun write_table :: "msf_entry list \<Rightarrow> u32 \<Rightarrow> msf_entry list \<times> bytes" where
  "write_table [] curofs = ([], [])"
| "write_table (e # es) curofs =
     (let e' = e\<lparr>e_ofs := curofs\<rparr>;
          r = write_table es (curofs + e_len e')
      in (e' # fst r,
          write32be (e_ofs e') @ write32be (e_len e') @ write8 (e_namelen e') @ e_name e' @ snd r))"

text \<open>
  The data loop over the entries still to be written. It ends by falling through to
  \<^verbatim>\<open>_end\<close> and \<^verbatim>\<open>return ret\<close>, where \<^verbatim>\<open>ret\<close> still holds the \<^verbatim>\<open>-1\<close> it was
  initialised with: no statement of \<^verbatim>\<open>msf_pack\<close> assigns to it.
\<close>

fun write_files ::
  "env \<Rightarrow> fsnode \<Rightarrow> bytes \<Rightarrow> msf_entry list \<Rightarrow> bytes \<times> u32 \<Rightarrow> bytes \<Rightarrow> diag list \<Rightarrow>
   outcome \<times> bytes \<times> diag list" where
  "write_files env root dirpath [] b out err = (Returned (- 1), out, err)"
| "write_files env root dirpath (e # es) b out err =
     (case ensure_buf env (e_len e) b of
        (False, buf, buflen) \<Rightarrow> (Returned (- 1), out, err @ [ErrBufAlloc buflen])
      | (True, buf, buflen) \<Rightarrow>
          if path_truncated PATH_SIZE dirpath (e_name e) then (Stopped PathTruncated, out, err)
          else
            (case fopen_rb root (c_str (e_name e)) of
               None \<Rightarrow>
                 (Returned (- 1), out, err @ [ErrRead (snprintf_path PATH_SIZE dirpath (e_name e))])
             | Some content \<Rightarrow>
                 if buflen < e_len e then (Stopped BufferOverrun, out, err)
                 else
                   (let buf' = fread_into buf content (unat (e_len e))
                    in write_files env root dirpath es (buf', buflen)
                         (out @ buf_bytes env buf' (unat (e_len e))) err)))"

text \<open>
  \<^verbatim>\<open>msf_pack(f, dirpath)\<close>, with \<open>root\<close> the node found at \<^verbatim>\<open>dirpath\<close> and \<^verbatim>\<open>f\<close> a
  stream just opened for writing, so that \<^verbatim>\<open>ftell(f)\<close> is the number of bytes written.
\<close>

definition msf_pack :: "env \<Rightarrow> fsnode \<Rightarrow> bytes \<Rightarrow> pack_result" where
  "msf_pack env root dirpath =
     (case msf_walk env root dirpath (of_nat (strlen dirpath) + 1)
             \<lparr>ws_ent = [], ws_datastart = sizeof_msf_header, ws_err = []\<rparr> 0 of
        Inl f \<Rightarrow> \<lparr>pr_status = Stopped f, pr_out = [], pr_err = [], pr_ent = []\<rparr>
      | Inr (num_files, st) \<Rightarrow>
          if num_files = 0 then
            \<lparr>pr_status = Returned (- 1), pr_out = [], pr_err = ws_err st, pr_ent = ws_ent st\<rparr>
          else
            (let datastart = ws_datastart st;
                 header = MSF_MAGIC @ write32be num_files;
                 t = write_table (take (unat num_files) (ws_ent st)) datastart;
                 out = header @ snd t
             in if int (unat datastart) \<noteq> int (length out) then
                  \<lparr>pr_status = AssertFailed, pr_out = out, pr_err = ws_err st, pr_ent = fst t\<rparr>
                else
                  (case write_files env root dirpath (fst t) ([], 0) out (ws_err st) of
                     (status, out', err') \<Rightarrow>
                       \<lparr>pr_status = status, pr_out = out', pr_err = err', pr_ent = fst t\<rparr>)))"

section \<open>The destination file system\<close>

text \<open>
  Where \<^verbatim>\<open>msf_unpack\<close> writes, as POSIX resolves paths (the \<^verbatim>\<open>mkdir(x, y)\<close> branch of
  \<^verbatim>\<open>UMKDIR\<close>; there are no symbolic links and every directory can be searched and
  written). A location is the list of the names from the root down to it; the file
  system records the location of the working directory and what is at each
  location.

  A path is split at \<^verbatim>\<open>/\<close>; it starts at the root when it begins with \<^verbatim>\<open>/\<close> and at
  the working directory otherwise. \<open>walk\<close> follows components from a location: an
  empty component and \<^verbatim>\<open>.\<close> stay, \<^verbatim>\<open>..\<close> goes up (the root is its own parent), a
  name is entered when a directory has it, and otherwise the walk fails. So
  \<^verbatim>\<open>a//b\<close>, \<^verbatim>\<open>a/b/\<close> and \<^verbatim>\<open>a/./b\<close> name what \<^verbatim>\<open>a/b\<close> names.
\<close>

datatype dnode = DDir | DFile bytes

record dfs =
  d_cwd :: "bytes list"
  d_nodes :: "bytes list \<Rightarrow> dnode option"

fun walk :: "(bytes list \<Rightarrow> dnode option) \<Rightarrow> bytes list \<Rightarrow> bytes list \<Rightarrow> bytes list option" where
  "walk nd cur [] = Some cur"
| "walk nd cur (c # cs) =
     (if c = [] \<or> c = [dot] then walk nd cur cs
      else if c = [dot, dot] then walk nd (butlast cur) cs
      else if nd (cur @ [c]) = Some DDir then walk nd (cur @ [c]) cs
      else None)"

definition start :: "dfs \<Rightarrow> bytes \<Rightarrow> bytes list" where
  "start fs p = (if p \<noteq> [] \<and> hd p = slash then [] else d_cwd fs)"

text \<open>
  The location at which a path would create an entry: the directory that the
  components before the last one lead to, extended by the last one. There is none
  when the path has no component (it is empty or consists of \<^verbatim>\<open>/\<close>), when its last
  component is \<^verbatim>\<open>.\<close> or \<^verbatim>\<open>..\<close>, or when the walk to the directory fails.
\<close>

definition target :: "dfs \<Rightarrow> bytes \<Rightarrow> bytes list option" where
  "target fs p =
     (let cs = filter (\<lambda>c. c \<noteq> []) (split_on slash p)
      in if cs = [] \<or> last cs = [dot] \<or> last cs = [dot, dot] then None
         else (case walk (d_nodes fs) (start fs p) (butlast cs) of
                 None \<Rightarrow> None
               | Some d \<Rightarrow> Some (d @ [last cs])))"

text \<open>
  \<^verbatim>\<open>mkdir\<close> creates a directory when the path has a location to create at and nothing
  is there; otherwise it fails (\<^verbatim>\<open>EEXIST\<close>, \<^verbatim>\<open>ENOENT\<close>, \<^verbatim>\<open>ENOTDIR\<close>) and changes
  nothing. \<^verbatim>\<open>fopen(path, "wb")\<close> creates or truncates a file there, unless the path
  ends in \<^verbatim>\<open>/\<close> or a directory is there; it gives the location of the file, at which
  the following \<^verbatim>\<open>fwrite\<close> puts its bytes.
\<close>

definition mkdir :: "dfs \<Rightarrow> bytes \<Rightarrow> int \<Rightarrow> int \<times> dfs" where
  "mkdir fs p mode =
     (case target fs p of
        None \<Rightarrow> (- 1, fs)
      | Some k \<Rightarrow>
          if d_nodes fs k = None then (0, fs\<lparr>d_nodes := (d_nodes fs)(k \<mapsto> DDir)\<rparr>) else (- 1, fs))"

definition fopen_wb :: "dfs \<Rightarrow> bytes \<Rightarrow> (bytes list \<times> dfs) option" where
  "fopen_wb fs p =
     (if p \<noteq> [] \<and> last p = slash then None
      else (case target fs p of
              None \<Rightarrow> None
            | Some k \<Rightarrow>
                if d_nodes fs k = Some DDir then None
                else Some (k, fs\<lparr>d_nodes := (d_nodes fs)(k \<mapsto> DFile [])\<rparr>)))"

text \<open>
  What a path names, as \<^verbatim>\<open>stat\<close> finds it: a directory, at the location \<open>dir_at\<close>
  gives, when the path is not empty and the walk along all its components succeeds;
  the file at its location when it does not end in \<^verbatim>\<open>/\<close>; and nothing otherwise.
\<close>

definition dir_at :: "dfs \<Rightarrow> bytes \<Rightarrow> bytes list option" where
  "dir_at fs p = (if p = [] then None else walk (d_nodes fs) (start fs p) (split_on slash p))"

definition lookup :: "dfs \<Rightarrow> bytes \<Rightarrow> dnode option" where
  "lookup fs p =
     (if dir_at fs p \<noteq> None then Some DDir
      else if p \<noteq> [] \<and> last p = slash then None
      else (case target fs p of
              None \<Rightarrow> None
            | Some k \<Rightarrow> (case d_nodes fs k of Some (DFile c) \<Rightarrow> Some (DFile c) | _ \<Rightarrow> None)))"

text \<open>
  \<^verbatim>\<open>mkpath(path, mode)\<close>. \<open>mkpath_loop\<close> is its \<^verbatim>\<open>for\<close> loop: \<open>pre\<close> is the part of
  \<^verbatim>\<open>tmp\<close> before \<^verbatim>\<open>p\<close>, the list is the part from \<^verbatim>\<open>p\<close> on. At a separator the
  string is cut there and \<^verbatim>\<open>mkdir\<close> is called on it; \<^verbatim>\<open>ret\<close> becomes 0 when the
  call succeeds.
\<close>

fun mkpath_loop :: "dfs \<Rightarrow> int \<Rightarrow> bytes \<Rightarrow> bytes \<Rightarrow> int \<Rightarrow> int \<times> dfs" where
  "mkpath_loop fs mode pre [] ret = (ret, fs)"
| "mkpath_loop fs mode pre (c # cs) ret =
     (if c = slash \<or> c = backslash then
        (case mkdir fs pre mode of
           (r, fs') \<Rightarrow> mkpath_loop fs' mode (pre @ [c]) cs (if 0 \<le> r then 0 else ret))
      else mkpath_loop fs mode (pre @ [c]) cs ret)"

definition mkpath :: "dfs \<Rightarrow> bytes \<Rightarrow> int \<Rightarrow> int \<times> dfs" where
  "mkpath fs path mode = mkpath_loop fs mode [] (c_str path) (- 1)"

section \<open>Unpack\<close>

text \<open>
  The archive stream is its bytes and a position. \<^verbatim>\<open>fread\<close> of \<open>n\<close> bytes delivers
  the bytes the stream has from the position on, at most \<open>n\<close>, and moves the position
  by as many. \<^verbatim>\<open>read8\<close> and \<^verbatim>\<open>read32be\<close> read into a local that is not initialised:
  the bytes a short read does not deliver are indeterminate.
\<close>

definition fread_bytes :: "bytes \<Rightarrow> nat \<Rightarrow> nat \<Rightarrow> bytes" where
  "fread_bytes inp pos n = take n (drop pos inp)"

definition read8 :: "env \<Rightarrow> bytes \<Rightarrow> nat \<Rightarrow> byte \<times> nat" where
  "read8 env inp pos =
     (case fread_bytes inp pos 1 of [] \<Rightarrow> (junk env 0, pos) | b # bs \<Rightarrow> (b, pos + 1))"

definition read32be :: "env \<Rightarrow> bytes \<Rightarrow> nat \<Rightarrow> u32 \<times> nat" where
  "read32be env inp pos =
     (let got = fread_bytes inp pos 4
      in (bswap32 (load32 (got @ map (junk env) [length got ..< 4])), pos + length got))"

text \<open>
  What a run of \<^verbatim>\<open>msf_unpack\<close> does, in order: reading the magic and the count,
  reading table entry \<open>i\<close> (with the stream position before and after), and for entry
  \<open>i\<close> of the extraction loop \<^verbatim>\<open>mkpath\<close>, the seek and read of its data, and the
  creation and writing of its file; and the diagnostics.
\<close>

datatype event =
    ReadMagic
  | ReadCount
  | ReadEntry nat nat nat
  | MkPath nat bytes
  | SeekData nat u32
  | ReadData nat nat
  | WriteFile nat bytes
  | Diag diag

record unpack_state =
  us_buf :: bytes
  us_buflen :: u32
  us_fs :: dfs
  us_log :: "event list"

text \<open>
  The first loop of \<^verbatim>\<open>msf_unpack\<close>, for the \<open>k\<close> entries from index \<open>i\<close> on:
  \<^verbatim>\<open>ofs\<close>, \<^verbatim>\<open>len\<close> and \<^verbatim>\<open>namelen\<close> are read, \<^verbatim>\<open>namelen\<close> is compared with
  \<^verbatim>\<open>MSF_MAX_NAMELEN\<close>, and the name is read into the zeroed \<^verbatim>\<open>name\<close> buffer.
  The result is the entries, the stream position and the events.
\<close>

fun read_table :: "env \<Rightarrow> bytes \<Rightarrow> nat \<Rightarrow> nat \<Rightarrow> nat \<Rightarrow> msf_entry list \<times> nat \<times> event list" where
  "read_table env inp 0 i pos = ([], pos, [])"
| "read_table env inp (Suc k) i pos =
     (let r1 = read32be env inp pos;
          r2 = read32be env inp (snd r1);
          r3 = read8 env inp (snd r2);
          long = (MSF_MAX_NAMELEN < unat (fst r3));
          nl = (if long then of_nat MSF_MAX_NAMELEN else fst r3);
          nm = fread_bytes inp (snd r3) (unat nl);
          pos' = snd r3 + length nm;
          e = \<lparr>e_ofs = fst r1, e_len = fst r2, e_namelen = nl, e_name = nm\<rparr>;
          r = read_table env inp k (Suc i) pos'
      in (e # fst r, fst (snd r),
          (if long then [Diag (WarnNameLen i (unat (fst r3)))] else []) @
          [ReadEntry i pos pos'] @ snd (snd r)))"

text \<open>
  The second loop of \<^verbatim>\<open>msf_unpack\<close>, over the entries still to be extracted, \<open>i\<close>
  the index of the first. It ends with \<^verbatim>\<open>ret = 0\<close>.
\<close>

fun extract_files ::
  "env \<Rightarrow> bytes \<Rightarrow> bytes \<Rightarrow> msf_entry list \<Rightarrow> nat \<Rightarrow> unpack_state \<Rightarrow> outcome \<times> unpack_state" where
  "extract_files env inp dir [] i s = (Returned 0, s)"
| "extract_files env inp dir (e # es) i s =
     (case ensure_buf env (e_len e) (us_buf s, us_buflen s) of
        (False, buf, buflen) \<Rightarrow>
          (Returned (- 1),
           s\<lparr>us_buf := buf, us_buflen := buflen, us_log := us_log s @ [Diag (ErrBufAlloc buflen)]\<rparr>)
      | (True, buf, buflen) \<Rightarrow>
          (let path = snprintf_path PATH_SIZE dir (e_name e);
               fs1 = snd (mkpath (us_fs s) path 493);
               avail = drop (unat (e_ofs e)) inp;
               got = take (unat (e_len e)) avail;
               log1 = us_log s @ [MkPath i path, SeekData i (e_ofs e)]
           in if unat buflen < length got then
                (Stopped BufferOverrun, s\<lparr>us_buf := buf, us_buflen := buflen, us_fs := fs1, us_log := log1\<rparr>)
              else
                (let buf' = fread_into buf avail (unat (e_len e));
                     log2 = log1 @ [ReadData i (length got)]
                 in case fopen_wb fs1 path of
                      None \<Rightarrow>
                        (Returned (- 1),
                         s\<lparr>us_buf := buf', us_buflen := buflen, us_fs := fs1,
                           us_log := log2 @ [Diag (ErrOpenWrite path)]\<rparr>)
                    | Some (fout, fs2) \<Rightarrow>
                        if buflen < e_len e then
                          (Stopped BufferOverrun,
                           s\<lparr>us_buf := buf', us_buflen := buflen, us_fs := fs2, us_log := log2\<rparr>)
                        else
                          extract_files env inp dir es (Suc i)
                            (s\<lparr>us_buf := buf', us_buflen := buflen,
                               us_fs := fs2\<lparr>d_nodes :=
                                 (d_nodes fs2)(fout \<mapsto> DFile (buf_bytes env buf' (unat (e_len e))))\<rparr>,
                               us_log := log2 @ [WriteFile i path]\<rparr>))))"

record unpack_result =
  ur_status :: outcome
  ur_fs :: dfs
  ur_log :: "event list"
  ur_ent :: "msf_entry list"

text \<open>
  \<^verbatim>\<open>msf_unpack(f, dir)\<close> on a stream at position 0 and a destination file system.
  The magic is read into the zeroed header.
\<close>

definition msf_unpack :: "env \<Rightarrow> bytes \<Rightarrow> bytes \<Rightarrow> dfs \<Rightarrow> unpack_result" where
  "msf_unpack env inp dir fs =
     (let got = fread_bytes inp 0 8;
          magic = got @ replicate (8 - length got) 0
      in if magic \<noteq> MSF_MAGIC then
           \<lparr>ur_status = Returned (- 1), ur_fs = fs, ur_log = [ReadMagic, Diag ErrMagic], ur_ent = []\<rparr>
         else
           (let r = read32be env inp (length got);
                num_files = fst r
            in if \<not> alloc_ok env (unat num_files * sizeof_msf_entry) then
                 \<lparr>ur_status = Returned (- 1), ur_fs = fs,
                  ur_log = [ReadMagic, ReadCount, Diag ErrUnpackTableAlloc], ur_ent = []\<rparr>
               else
                 (let t = read_table env inp (unat num_files) 0 (snd r);
                      x = extract_files env inp dir (fst t) 0
                            \<lparr>us_buf = [], us_buflen = 0, us_fs = fs,
                             us_log = [ReadMagic, ReadCount] @ snd (snd t)\<rparr>
                  in \<lparr>ur_status = fst x, ur_fs = us_fs (snd x), ur_log = us_log (snd x),
                      ur_ent = fst t\<rparr>)))"

section \<open>The entry point\<close>

text \<open>
  What \<^verbatim>\<open>main\<close> finds outside: the node a directory path names, the content of a
  file that \<^verbatim>\<open>fopen(path, "rb")\<close> opens, whether \<^verbatim>\<open>fopen(path, "wb")\<close> succeeds,
  and the destination file system. The result is how the process ends.
\<close>

record sys =
  sys_scan :: "bytes \<Rightarrow> fsnode"
  sys_archive :: "bytes \<Rightarrow> bytes option"
  sys_creatable :: "bytes \<Rightarrow> bool"
  sys_dest :: dfs

definition str_pack :: bytes where
  "str_pack = [0x70, 0x61, 0x63, 0x6B]"

definition main :: "env \<Rightarrow> bytes list \<Rightarrow> sys \<Rightarrow> outcome" where
  "main env argv w =
     (if length argv < 4 then Returned (- 1)
      else
        (let do_pack = (c_str (argv ! 1) = str_pack);
             msf_path = argv ! 2;
             dir = argv ! 3
         in if do_pack then
              (if sys_creatable w msf_path then pr_status (msf_pack env (sys_scan w dir) dir)
               else Returned (- 1))
            else
              (case sys_archive w msf_path of
                 None \<Rightarrow> Returned (- 1)
               | Some inp \<Rightarrow> ur_status (msf_unpack env inp dir (sys_dest w)))))"

section \<open>Notions the properties are stated with\<close>

text \<open>
  The tree with every hidden entry removed, at every depth: what is left when the
  entries whose name begins with \<^verbatim>\<open>.\<close> do not exist.
\<close>

fun strip_hidden :: "fsnode \<Rightarrow> fsnode"
  and strip_entries :: "(bytes \<times> fsnode) list \<Rightarrow> (bytes \<times> fsnode) list" where
  "strip_hidden (Dir es) = Dir (strip_entries es)"
| "strip_hidden (Reg r c) = Reg r c"
| "strip_hidden NoOpenDir = NoOpenDir"
| "strip_hidden Special = Special"
| "strip_hidden NoStat = NoStat"
| "strip_entries [] = []"
| "strip_entries ((d_name, node) # rest) =
     (if hidden d_name then strip_entries rest else (d_name, strip_hidden node) # strip_entries rest)"

text \<open>
  Events of the table pass, events that touch file data or the destination, and the
  name-length warning.
\<close>

fun is_table_event :: "event \<Rightarrow> bool" where
  "is_table_event (ReadEntry i p q) = True"
| "is_table_event e = False"


fun is_warning :: "event \<Rightarrow> bool" where
  "is_warning (Diag (WarnNameLen i n)) = True"
| "is_warning e = False"

fun is_extract_event :: "event \<Rightarrow> bool" where
  "is_extract_event (MkPath i p) = True"
| "is_extract_event (SeekData i p) = True"
| "is_extract_event (ReadData i n) = True"
| "is_extract_event (WriteFile i p) = True"
| "is_extract_event (Diag (ErrBufAlloc n)) = True"
| "is_extract_event (Diag (ErrOpenWrite p)) = True"
| "is_extract_event e = False"


text \<open>Offsets assigned one after the other, starting at \<open>c\<close>.\<close>

fun chained :: "u32 \<Rightarrow> msf_entry list \<Rightarrow> bool" where
  "chained c [] = True"
| "chained c (e # es) = (e_ofs e = c \<and> chained (c + e_len e) es)"

text \<open>
  Two facts the scanner keeps about its table: every name has as many bytes as its
  \<^verbatim>\<open>namelen\<close> says, and a count that is not 0 is the length of the table.
\<close>

definition names_sized :: "msf_entry list \<Rightarrow> bool" where
  "names_sized es = list_all (\<lambda>e. length (e_name e) = unat (e_namelen e)) es"

definition count_ok :: "u32 \<Rightarrow> msf_entry list \<Rightarrow> bool" where
  "count_ok fcount es = (fcount = 0 \<or> unat fcount = length es)"

text \<open>
  The table an archive holds, as \<^verbatim>\<open>msf_unpack\<close> reads it: the count is read after the
  8 bytes of the magic, and the entries after the count.
\<close>

definition archive_table :: "env \<Rightarrow> bytes \<Rightarrow> msf_entry list" where
  "archive_table env inp =
     (let r = read32be env inp 8 in fst (read_table env inp (unat (fst r)) 0 (snd r)))"

subsection \<open>Trees that pack and unpack\<close>

text \<open>
  The regular files of a tree with their paths relative to the root, in the order of
  the listings: \<open>entries_files es pre\<close> for the entries of a directory whose relative
  path, with its final \<^verbatim>\<open>/\<close>, is \<open>pre\<close>.
\<close>

fun node_files :: "fsnode \<Rightarrow> bytes \<Rightarrow> (bytes \<times> bytes) list"
  and entries_files :: "(bytes \<times> fsnode) list \<Rightarrow> bytes \<Rightarrow> (bytes \<times> bytes) list" where
  "node_files (Reg r c) p = [(p, c)]"
| "node_files (Dir es) p = entries_files es (p @ [slash])"
| "node_files NoOpenDir p = []"
| "node_files Special p = []"
| "node_files NoStat p = []"
| "entries_files [] pre = []"
| "entries_files ((d_name, node) # rest) pre = node_files node (pre @ d_name) @ entries_files rest pre"

text \<open>
  A name as a file system gives it to a file that the scanner does not skip: not
  empty, without NUL, \<^verbatim>\<open>/\<close> and backslash, not beginning with \<^verbatim>\<open>.\<close>. A tree of
  readable regular files and directories with such names, different names within a
  directory, and no relative path longer than 255 bytes: \<open>good_entries n es\<close>, for
  the entries of a directory whose relative path, with its final \<^verbatim>\<open>/\<close>, has \<open>n\<close>
  bytes.
\<close>

definition good_name :: "bytes \<Rightarrow> bool" where
  "good_name n = (n \<noteq> [] \<and> 0 \<notin> set n \<and> slash \<notin> set n \<and> backslash \<notin> set n \<and> \<not> hidden n)"

fun good_node :: "nat \<Rightarrow> fsnode \<Rightarrow> bool"
  and good_entries :: "nat \<Rightarrow> (bytes \<times> fsnode) list \<Rightarrow> bool" where
  "good_node plen (Reg r c) = r"
| "good_node plen (Dir es) = good_entries (Suc plen) es"
| "good_node plen NoOpenDir = False"
| "good_node plen Special = False"
| "good_node plen NoStat = False"
| "good_entries plen [] = True"
| "good_entries plen ((d_name, node) # rest) =
     (good_name d_name \<and> plen + length d_name \<le> MSF_MAX_NAMELEN \<and> d_name \<notin> fst ` set rest \<and>
      good_node (plen + length d_name) node \<and> good_entries plen rest)"

text \<open>The components of a path: its pieces between \<^verbatim>\<open>/\<close>, the empty ones left out.\<close>

definition comps :: "bytes \<Rightarrow> bytes list" where
  "comps x = filter (\<lambda>c. c \<noteq> []) (split_on slash x)"








definition table_size :: "(bytes \<times> bytes) list \<Rightarrow> nat" where
  "table_size F = (\<Sum>f\<leftarrow>F. 8 + 1 + length (fst f))"



subsection \<open>Concrete inputs\<close>

text \<open>The bytes of an ASCII string.\<close>

definition str :: "string \<Rightarrow> bytes" where
  "str s = map of_char s"

text \<open>An environment in which every allocation succeeds.\<close>

definition env_plain :: env where
  "env_plain = \<lparr>alloc_ok = (\<lambda>n. True), junk = (\<lambda>n. 0)\<rparr>"

text \<open>
  The scenario of the specification: \<^verbatim>\<open>readme.txt\<close> with the 11 bytes
  \<^verbatim>\<open>hello world\<close> and \<^verbatim>\<open>sub/data.bin\<close> with the bytes 1, 2, 3; and the archive
  \<^verbatim>\<open>msf_pack\<close> writes for it.
\<close>

definition tree_demo :: fsnode where
  "tree_demo =
     Dir [(str ''readme.txt'', Reg True (str ''hello world'')),
          (str ''sub'', Dir [(str ''data.bin'', Reg True [1, 2, 3])])]"

definition demo_archive :: bytes where
  "demo_archive =
     [0, 0, 3, 231, 0, 0, 0, 2, 0, 0, 0, 2, 0, 0, 0, 52, 0, 0, 0, 11, 10] @ str ''readme.txt'' @
     [0, 0, 0, 63, 0, 0, 0, 3, 12] @ str ''sub/data.bin'' @ str ''hello world'' @ [1, 2, 3]"

text \<open>
  A directory whose subdirectory \<^verbatim>\<open>a\<close> cannot be opened, followed by a regular file
  \<^verbatim>\<open>f\<close>.
\<close>

definition tree_locked :: fsnode where
  "tree_locked = Dir [(str ''a'', NoOpenDir), (str ''f'', Reg True [1, 2, 3])]"

text \<open>
  A file whose name has 100 bytes in a directory whose name has 200 bytes: its
  relative path has 301 bytes.
\<close>

definition tree_long :: fsnode where
  "tree_long = Dir [(replicate 200 0x61, Dir [(replicate 100 0x62, Reg True [1, 2, 3])])]"


text \<open>
  Destinations, the working directory being the root: an existing directory
  \<^verbatim>\<open>out\<close>; existing directories \<^verbatim>\<open>a\<close> and \<^verbatim>\<open>a/b\<close>; only the root.
\<close>

definition fs_out :: dfs where
  "fs_out = \<lparr>d_cwd = [], d_nodes = [[] \<mapsto> DDir, [str ''out''] \<mapsto> DDir]\<rparr>"

definition fs_ab :: dfs where
  "fs_ab = \<lparr>d_cwd = [], d_nodes = [[] \<mapsto> DDir, [str ''a''] \<mapsto> DDir, [str ''a'', str ''b''] \<mapsto> DDir]\<rparr>"

definition fs_root :: dfs where
  "fs_root = \<lparr>d_cwd = [], d_nodes = [[] \<mapsto> DDir]\<rparr>"

text \<open>
  The outside of a run of \<^verbatim>\<open>msftool pack x.msf d\<close> in which \<^verbatim>\<open>d\<close> is the tree of
  the scenario and the archive can be created.
\<close>

definition sys_demo :: sys where
  "sys_demo =
     \<lparr>sys_scan = (\<lambda>p. tree_demo), sys_archive = (\<lambda>p. None), sys_creatable = (\<lambda>p. True),
      sys_dest = fs_root\<rparr>"

section \<open>Auxiliary facts\<close>

subsection \<open>C strings and paths\<close>

lemma c_str_no_nul: "0 \<notin> set (c_str s)"
  unfolding c_str_def by (induction s) auto

lemma c_str_idem: "0 \<notin> set s \<Longrightarrow> c_str s = s"
  unfolding c_str_def by (induction s) auto

lemma strlen_snprintf_path: "strlen (snprintf_path n a b) = length (snprintf_path n a b)"
proof -
  have "0 \<notin> set (c_str a @ [slash] @ c_str b)"
    using c_str_no_nul by (auto simp add: slash_def)
  then have "0 \<notin> set (snprintf_path n a b)"
    unfolding snprintf_path_def by (meson in_set_takeD)
  then show ?thesis by (simp add: strlen_def c_str_idem)
qed

lemma hidden_replicate: "0 < n \<Longrightarrow> hidden (replicate n c) = (c = dot)"
  by (cases n) simp_all

lemma split_on_no_sep: "d \<notin> set xs \<Longrightarrow> split_on d xs = [xs]"
  by (induction xs) auto

subsection \<open>The scanner\<close>

lemma stat_strip_hidden: "stat (strip_hidden n) = stat n"
  by (cases n) simp_all

lemma walk_strip_hidden:
  "msf_walk env (strip_hidden node) dirpath baselen st fcount = msf_walk env node dirpath baselen st fcount"
  "walk_entries env (strip_entries es) dirpath baselen st fcount = walk_entries env es dirpath baselen st fcount"
proof (induction env node dirpath baselen st fcount and env es dirpath baselen st fcount
    rule: msf_walk_walk_entries.induct)
  case (7 env d_name node rest dirpath baselen st fcount)
  show ?case
  proof (cases "hidden d_name")
    case True
    with 7 show ?thesis by simp
  next
    case False
    show ?thesis
    proof (cases "path_truncated PATH_SIZE dirpath d_name")
      case True
      with False show ?thesis by simp
    next
      case nt: False
      show ?thesis
      proof (cases "stat node")
        case None
        with False nt show ?thesis by (simp add: stat_strip_hidden)
      next
        case (Some ms)
        obtain mode st_size where ms: "ms = (mode, st_size)" by (cases ms)
        show ?thesis
          using False nt Some ms 7
          by (simp add: stat_strip_hidden Let_def split: sum.splits prod.splits)
      qed
    qed
  qed
qed simp_all

lemma namelen_le:
  assumes "unat b \<le> n"
  shows "unat (of_nat n - ucast (b :: u32) :: byte) \<le> n - unat b"
proof -
  have "(ucast b :: byte) = of_nat (unat b)" by simp
  then have "(of_nat n - ucast b :: byte) = of_nat (n - unat b)"
    using assms by (simp add: of_nat_diff)
  then have "unat (of_nat n - ucast b :: byte) = (n - unat b) mod 2 ^ LENGTH(8)"
    by (simp only: unat_of_nat)
  then show ?thesis by simp
qed

lemma new_entry_sized:
  assumes "\<not> strlen path < unat baselen" and "strlen path = length path"
  shows "length (take (unat (of_nat (strlen path) - ucast (baselen :: u32) :: byte)) (drop (unat baselen) path))
     = unat (of_nat (strlen path) - ucast baselen :: byte)"
  using namelen_le [of baselen "length path"] assms by simp

lemma names_sized_take: "names_sized es \<Longrightarrow> names_sized (take n es)"
  unfolding names_sized_def list_all_iff by (meson in_set_takeD)

lemma count_ok_add:
  assumes "count_ok fcount es" and "fcount + 1 \<noteq> 0"
  shows "count_ok (fcount + 1) (take (unat fcount) es @ [e])"
proof -
  have "unat (fcount + 1) = Suc (unat fcount)"
    using assms(2) by (simp add: unatSuc add.commute)
  with assms(1) show ?thesis by (auto simp add: count_ok_def)
qed

lemma walk_invariant:
  "msf_walk env node dirpath baselen st fcount = Inr (n, st') \<Longrightarrow>
     names_sized (ws_ent st) \<Longrightarrow> count_ok fcount (ws_ent st) \<Longrightarrow>
     names_sized (ws_ent st') \<and> count_ok n (ws_ent st')"
  "walk_entries env es dirpath baselen st fcount = Inr (n, st') \<Longrightarrow>
     names_sized (ws_ent st) \<Longrightarrow> count_ok fcount (ws_ent st) \<Longrightarrow>
     names_sized (ws_ent st') \<and> count_ok n (ws_ent st')"
proof (induction env node dirpath baselen st fcount and env es dirpath baselen st fcount
    arbitrary: n st' and n st' rule: msf_walk_walk_entries.induct)
  case (7 env d_name node rest dirpath baselen st fcount)
  define path where "path = snprintf_path PATH_SIZE dirpath d_name"
  show ?case
  proof (cases "hidden d_name")
    case True
    with 7 show ?thesis by simp
  next
    case False
    note nh = this
    show ?thesis
    proof (cases "path_truncated PATH_SIZE dirpath d_name")
      case True
      with nh "7.prems" show ?thesis by simp
    next
      case False
      note nt = this
      show ?thesis
      proof (cases "stat node")
        case None
        with nh nt "7.prems" show ?thesis by (auto simp add: count_ok_def)
      next
        case (Some ms)
        obtain mode st_size where ms: "ms = (mode, st_size)" by (cases ms)
        consider (dir) "mode = S_IFDIR" | (reg) "mode = S_IFREG" | (other) "mode = S_IFOTHER"
          by (cases mode) auto
        then show ?thesis
        proof cases
          case dir
          from "7.prems"(1) nh nt Some ms dir obtain fc1 st1 where
            w: "msf_walk env node path baselen st fcount = Inr (fc1, st1)"
            and r: "walk_entries env rest dirpath baselen st1 fc1 = Inr (n, st')"
            by (auto simp add: path_def Let_def split: sum.splits)
          from "7.IH"(2) [OF nh nt path_def Some ms [symmetric] dir w "7.prems"(2,3)]
          have "names_sized (ws_ent st1) \<and> count_ok fc1 (ws_ent st1)" .
          with "7.IH"(3) [OF nh nt path_def Some ms [symmetric] dir w _ r]
          show ?thesis by simp
        next
          case reg
          show ?thesis
          proof (cases "alloc_ok env (unat (fcount + 1) * sizeof_msf_entry)")
            case False
            with "7.prems" nh nt Some ms reg show ?thesis
              by (auto simp add: Let_def count_ok_def names_sized_def)
          next
            case True
            note al = this
            show ?thesis
            proof (cases "fcount + 1 = 0 \<or> strlen path < unat baselen")
              case True
              with "7.prems" nh nt Some ms reg al show ?thesis
                by (auto simp add: Let_def path_def)
            next
              case False
              define nl where "nl = (of_nat (strlen path) - ucast baselen :: byte)"
              define e where "e = \<lparr>e_ofs = 0, e_len = of_nat st_size, e_namelen = nl,
                            e_name = take (unat nl) (drop (unat baselen) path)\<rparr>"
              define st1 where "st1 = st\<lparr>ws_ent := take (unat fcount) (ws_ent st) @ [e],
                            ws_datastart := ws_datastart st + (4 * 2 + 1 + ucast nl)\<rparr>"
              have r: "walk_entries env rest dirpath baselen st1 (fcount + 1) = Inr (n, st')"
                using "7.prems"(1) nh nt Some ms reg al False
                by (simp add: Let_def path_def st1_def e_def nl_def)
              have "length (e_name e) = unat (e_namelen e)"
                using new_entry_sized [of path baselen] False strlen_snprintf_path [of PATH_SIZE dirpath d_name]
                by (simp add: e_def nl_def path_def)
              then have ns: "names_sized (ws_ent st1)"
                using names_sized_take [OF "7.prems"(2), of "unat fcount"]
                by (simp add: st1_def names_sized_def)
              have co: "count_ok (fcount + 1) (ws_ent st1)"
                using count_ok_add [OF "7.prems"(3)] False by (simp add: st1_def)
              have nd: "mode \<noteq> S_IFDIR" using reg by simp
              have al2: "\<not> \<not> alloc_ok env (unat (fcount + 1) * sizeof_msf_entry)" using al by simp
              show ?thesis
                by (rule "7.IH"(4) [OF nh nt path_def Some ms [symmetric] nd reg refl refl al2 False
                      nl_def e_def r [unfolded st1_def] ns [unfolded st1_def] co [unfolded st1_def]])
            qed
          qed
        next
          case other
          with "7.IH"(5) "7.prems" nh nt Some ms show ?thesis
            by (simp add: Let_def path_def)
        qed
      qed
    qed
  qed
qed (auto simp add: count_ok_def)

subsection \<open>The table loop of pack\<close>

lemma length_write32be [simp]: "length (write32be v) = 4"
  by (simp add: write32be_def store32_def)

lemma length_write8 [simp]: "length (write8 v) = 1"
  by (simp add: write8_def)

lemma write_table_length [simp]: "length (fst (write_table es c)) = length es"
  by (induction es arbitrary: c) (simp_all add: Let_def)

lemma write_table_chained: "chained c (fst (write_table es c))"
  by (induction es arbitrary: c) (simp_all add: Let_def)

lemma write_table_namelen [simp]: "map e_namelen (fst (write_table es c)) = map e_namelen es"
  by (induction es arbitrary: c) (simp_all add: Let_def)

lemma write_table_name [simp]: "map e_name (fst (write_table es c)) = map e_name es"
  by (induction es arbitrary: c) (simp_all add: Let_def)

lemma write_table_len [simp]: "map e_len (fst (write_table es c)) = map e_len es"
  by (induction es arbitrary: c) (simp_all add: Let_def)

lemma write_table_size:
  "length (snd (write_table es c)) = (\<Sum>e\<leftarrow>es. 4 * 2 + 1 + length (e_name e))"
  by (induction es arbitrary: c) (simp_all add: Let_def)

lemma chained_step:
  "chained c es \<Longrightarrow> Suc i < length es \<Longrightarrow> e_ofs (es ! Suc i) = e_ofs (es ! i) + e_len (es ! i)"
proof (induction es arbitrary: c i)
  case Nil
  then show ?case by simp
next
  case (Cons e es)
  show ?case
  proof (cases i)
    case 0
    with Cons.prems show ?thesis by (cases es) auto
  next
    case (Suc j)
    with Cons.prems Cons.IH [of "c + e_len e" j] show ?thesis by simp
  qed
qed

lemma chained_first: "chained c es \<Longrightarrow> es \<noteq> [] \<Longrightarrow> e_ofs (es ! 0) = c"
  by (cases es) auto

lemma sum_list_cong_map: "map f xs = map f ys \<Longrightarrow> (\<Sum>e\<leftarrow>xs. g (f e)) = (\<Sum>e\<leftarrow>ys. g (f e))"
proof -
  assume "map f xs = map f ys"
  then have "map g (map f xs) = map g (map f ys)" by simp
  then show ?thesis by (simp add: comp_def)
qed

lemma names_sized_sum:
  "names_sized es \<Longrightarrow>
     (\<Sum>e\<leftarrow>es. 4 * 2 + 1 + length (e_name e)) = (\<Sum>e\<leftarrow>es. 8 + 1 + unat (e_namelen e))"
  unfolding names_sized_def by (induction es) simp_all

subsection \<open>The return value of pack\<close>

lemma write_files_status: "fst (write_files env root dirpath es b out err) \<noteq> Returned 0"
proof (induction es arbitrary: b out err)
  case Nil
  show ?case by simp
next
  case (Cons e es)
  obtain ok buf buflen where eb: "ensure_buf env (e_len e) b = (ok, buf, buflen)"
    by (cases "ensure_buf env (e_len e) b")
  show ?case
  proof (cases ok)
    case False
    with eb show ?thesis by simp
  next
    case True
    with eb Cons.IH show ?thesis
      by (simp add: Let_def split: option.splits)
  qed
qed

lemma msf_pack_status: "pr_status (msf_pack env root dirpath) \<noteq> Returned 0"
proof (cases "msf_walk env root dirpath (of_nat (strlen dirpath) + 1)
    \<lparr>ws_ent = [], ws_datastart = sizeof_msf_header, ws_err = []\<rparr> 0")
  case (Inl f)
  then show ?thesis by (simp add: msf_pack_def)
next
  case (Inr r)
  obtain n st where r: "r = (n, st)" by (cases r)
  define t where "t = write_table (take (unat n) (ws_ent st)) (ws_datastart st)"
  define out where "out = MSF_MAGIC @ write32be n @ snd t"
  obtain status out' err' where
    w: "write_files env root dirpath (fst t) ([], 0) out (ws_err st) = (status, out', err')"
    by (cases "write_files env root dirpath (fst t) ([], 0) out (ws_err st)")
  then have "status \<noteq> Returned 0"
    using write_files_status [of env root dirpath "fst t" "([], 0)" out "ws_err st"] by simp
  with Inr r w show ?thesis
    by (simp add: msf_pack_def Let_def t_def out_def)
qed

subsection \<open>mkpath\<close>

lemma mkdir_result:
  "(\<exists>k. d_nodes fs k = None \<and> mkdir fs p mode = (0, fs\<lparr>d_nodes := (d_nodes fs)(k \<mapsto> DDir)\<rparr>)) \<or>
   mkdir fs p mode = (- 1, fs)"
  by (auto simp add: mkdir_def split: option.splits)

lemma mkpath_loop_keeps:
  "d_nodes fs k \<noteq> None \<Longrightarrow> d_nodes (snd (mkpath_loop fs mode pre cs ret)) k = d_nodes fs k"
proof (induction cs arbitrary: fs pre ret)
  case Nil
  then show ?case by simp
next
  case (Cons c cs)
  show ?case
  proof (cases "c = slash \<or> c = backslash")
    case True
    from mkdir_result [of fs pre mode] show ?thesis
    proof
      assume "\<exists>j. d_nodes fs j = None \<and> mkdir fs pre mode = (0, fs\<lparr>d_nodes := (d_nodes fs)(j \<mapsto> DDir)\<rparr>)"
      then obtain j where a: "d_nodes fs j = None"
        "mkdir fs pre mode = (0, fs\<lparr>d_nodes := (d_nodes fs)(j \<mapsto> DDir)\<rparr>)" by blast
      define fs' where "fs' = fs\<lparr>d_nodes := (d_nodes fs)(j \<mapsto> DDir)\<rparr>"
      from a Cons.prems have "k \<noteq> j" by auto
      then have same: "d_nodes fs' k = d_nodes fs k" by (simp add: fs'_def)
      with Cons.prems have "d_nodes fs' k \<noteq> None" by simp
      from Cons.IH [of fs' "pre @ [c]" 0, OF this] same
      have "d_nodes (snd (mkpath_loop fs' mode (pre @ [c]) cs 0)) k = d_nodes fs k" by simp
      then show ?thesis using a True by (simp add: fs'_def)
    next
      assume "mkdir fs pre mode = (- 1, fs)"
      with Cons True show ?thesis by simp
    qed
  next
    case False
    with Cons show ?thesis by simp
  qed
qed

lemma mkpath_loop_zero: "fst (mkpath_loop fs mode pre cs 0) = 0"
  by (induction cs arbitrary: fs pre) (auto split: prod.splits)

lemma mkpath_loop_status:
  "ret = 0 \<or> ret = - 1 \<Longrightarrow>
     fst (mkpath_loop fs mode pre cs ret) = 0 \<or> fst (mkpath_loop fs mode pre cs ret) = - 1"
  by (induction cs arbitrary: fs pre ret) (auto split: prod.splits)

lemma mkpath_loop_created:
  "fst (mkpath_loop fs mode pre cs (- 1)) = 0 \<longleftrightarrow>
     (\<exists>k. d_nodes fs k = None \<and> d_nodes (snd (mkpath_loop fs mode pre cs (- 1))) k = Some DDir)"
proof (induction cs arbitrary: fs pre)
  case Nil
  show ?case by auto
next
  case (Cons c cs)
  show ?case
  proof (cases "c = slash \<or> c = backslash")
    case True
    from mkdir_result [of fs pre mode] show ?thesis
    proof
      assume "\<exists>j. d_nodes fs j = None \<and> mkdir fs pre mode = (0, fs\<lparr>d_nodes := (d_nodes fs)(j \<mapsto> DDir)\<rparr>)"
      then obtain j where a: "d_nodes fs j = None"
        "mkdir fs pre mode = (0, fs\<lparr>d_nodes := (d_nodes fs)(j \<mapsto> DDir)\<rparr>)" by blast
      define fs' where "fs' = fs\<lparr>d_nodes := (d_nodes fs)(j \<mapsto> DDir)\<rparr>"
      have "d_nodes fs' j \<noteq> None" by (simp add: fs'_def)
      from mkpath_loop_keeps [OF this, of mode "pre @ [c]" cs 0]
      have "d_nodes (snd (mkpath_loop fs' mode (pre @ [c]) cs 0)) j = Some DDir"
        by (simp add: fs'_def)
      with a True show ?thesis by (auto simp add: mkpath_loop_zero fs'_def)
    next
      assume "mkdir fs pre mode = (- 1, fs)"
      with Cons True show ?thesis by simp
    qed
  next
    case False
    with Cons show ?thesis by simp
  qed
qed

text \<open>A loop in which every \<^verbatim>\<open>mkdir\<close> fails.\<close>

lemma mkpath_loop_present:
  "(\<And>k. k < length cs \<Longrightarrow> cs ! k = slash \<or> cs ! k = backslash \<Longrightarrow>
      mkdir fs (pre @ take k cs) mode = (- 1, fs))
   \<Longrightarrow> mkpath_loop fs mode pre cs ret = (ret, fs)"
proof (induction cs arbitrary: pre)
  case Nil
  show ?case by simp
next
  case (Cons c cs)
  have rest: "\<And>k. k < length cs \<Longrightarrow> cs ! k = slash \<or> cs ! k = backslash
      \<Longrightarrow> mkdir fs ((pre @ [c]) @ take k cs) mode = (- 1, fs)"
    using Cons.prems [of "Suc k" for k] by simp
  show ?case
  proof (cases "c = slash \<or> c = backslash")
    case True
    with Cons.prems [of 0] have "mkdir fs pre mode = (- 1, fs)" by simp
    with True Cons.IH [OF rest] show ?thesis by simp
  next
    case False
    with Cons.IH [OF rest] show ?thesis by simp
  qed
qed

text \<open>Walks, and \<^verbatim>\<open>mkdir\<close> on a path that names something.\<close>

lemma walk_append:
  "walk nd cur (xs @ ys) = (case walk nd cur xs of None \<Rightarrow> None | Some d \<Rightarrow> walk nd d ys)"
  by (induction xs arbitrary: cur) simp_all

lemma walk_filter: "walk nd cur (filter (\<lambda>c. c \<noteq> []) cs) = walk nd cur cs"
  by (induction cs arbitrary: cur) simp_all

lemma walk_last:
  assumes "walk nd cur cs = Some d" and "cs \<noteq> []"
    and "last cs \<noteq> []" "last cs \<noteq> [dot]" "last cs \<noteq> [dot, dot]"
  shows "\<exists>e. walk nd cur (butlast cs) = Some e \<and> d = e @ [last cs] \<and> nd d = Some DDir"
proof -
  from assms(2) have cs: "cs = butlast cs @ [last cs]" by simp
  from assms(1) have "walk nd cur (butlast cs @ [last cs]) = Some d" using cs by simp
  then obtain e where e: "walk nd cur (butlast cs) = Some e" "walk nd e [last cs] = Some d"
    by (auto simp add: walk_append split: option.splits)
  from e(2) assms(3,4,5) have "d = e @ [last cs] \<and> nd d = Some DDir"
    by (auto split: if_splits)
  with e(1) show ?thesis by blast
qed

lemma mkdir_directory:
  assumes "walk (d_nodes fs) (start fs p) (split_on slash p) = Some d"
  shows "mkdir fs p mode = (- 1, fs)"
proof -
  define cs where "cs = filter (\<lambda>c. c \<noteq> []) (split_on slash p)"
  show ?thesis
  proof (cases "cs = [] \<or> last cs = [dot] \<or> last cs = [dot, dot]")
    case True
    then show ?thesis by (simp add: mkdir_def target_def cs_def [symmetric])
  next
    case False
    then have ne: "cs \<noteq> []" by simp
    then have "last cs \<in> set cs" by simp
    then have l: "last cs \<noteq> []" by (simp add: cs_def)
    from assms have "walk (d_nodes fs) (start fs p) cs = Some d"
      by (simp add: cs_def walk_filter)
    from walk_last [OF this ne l] False obtain e where
      "walk (d_nodes fs) (start fs p) (butlast cs) = Some e" "d_nodes fs (e @ [last cs]) = Some DDir"
      by auto
    with False show ?thesis by (simp add: mkdir_def target_def cs_def [symmetric])
  qed
qed

lemma mkdir_present: "lookup fs p \<noteq> None \<Longrightarrow> mkdir fs p mode = (- 1, fs)"
proof -
  assume a: "lookup fs p \<noteq> None"
  show ?thesis
  proof (cases "dir_at fs p")
    case (Some d)
    then have "walk (d_nodes fs) (start fs p) (split_on slash p) = Some d"
      by (simp add: dir_at_def split: if_splits)
    then show ?thesis by (rule mkdir_directory)
  next
    case None
    with a show ?thesis
      by (auto simp add: lookup_def mkdir_def split: if_splits option.splits dnode.splits)
  qed
qed

subsection \<open>The two loops of unpack\<close>

lemma byte_le_255: "unat (b :: byte) \<le> MSF_MAX_NAMELEN"
proof -
  have "unat b < 2 ^ LENGTH(8)" by (rule unsigned_less)
  then show ?thesis by (simp add: MSF_MAX_NAMELEN_def)
qed

lemma magic_pad:
  "take 8 inp \<noteq> MSF_MAGIC \<Longrightarrow>
     fread_bytes inp 0 8 @ replicate (8 - length (fread_bytes inp 0 8)) 0 \<noteq> MSF_MAGIC"
proof (cases "8 \<le> length inp")
  case True
  assume "take 8 inp \<noteq> MSF_MAGIC"
  with True show ?thesis by (simp add: fread_bytes_def)
next
  case False
  have "last (take 8 inp @ replicate (8 - length (take 8 inp)) (0::byte)) = 0"
    using False by simp
  moreover have "last MSF_MAGIC = 2" by (simp add: MSF_MAGIC_def)
  ultimately show ?thesis by (auto simp add: fread_bytes_def)
qed



lemma read_table_length: "length (fst (read_table env inp k i pos)) = k"
  by (induction k arbitrary: i pos) (simp_all add: Let_def)

lemma read_table_namelen:
  "list_all (\<lambda>e. unat (e_namelen e) \<le> MSF_MAX_NAMELEN) (fst (read_table env inp k i pos))"
  by (induction k arbitrary: i pos) (simp_all add: Let_def byte_le_255)

lemma read_table_log_table:
  "list_all is_table_event (snd (snd (read_table env inp k i pos)))"
  using byte_le_255
  by (induction k arbitrary: i pos) (simp_all add: Let_def not_less [symmetric])



lemma extract_log:
  "\<exists>X. us_log (snd (extract_files env inp dir es i s)) = us_log s @ X \<and> list_all is_extract_event X"
proof (induction es arbitrary: i s)
  case Nil
  show ?case by simp
next
  case (Cons e es)
  obtain ok buf buflen where eb: "ensure_buf env (e_len e) (us_buf s, us_buflen s) = (ok, buf, buflen)"
    by (cases "ensure_buf env (e_len e) (us_buf s, us_buflen s)")
  show ?case
  proof (cases ok)
    case False
    with eb show ?thesis by simp
  next
    case True
    define path where "path = snprintf_path PATH_SIZE dir (e_name e)"
    define fs1 where "fs1 = snd (mkpath (us_fs s) path 493)"
    define got where "got = take (unat (e_len e)) (drop (unat (e_ofs e)) inp)"
    define buf' where "buf' = fread_into buf (drop (unat (e_ofs e)) inp) (unat (e_len e))"
    show ?thesis
    proof (cases "unat buflen < length got")
      case True
      with eb \<open>ok\<close> show ?thesis by (simp add: Let_def got_def del: length_take)
    next
      case nover: False
      show ?thesis
      proof (cases "fopen_wb fs1 path")
        case None
        with eb \<open>ok\<close> nover show ?thesis
          by (simp add: Let_def got_def fs1_def path_def del: length_take)
      next
        case (Some r)
        obtain fout fs2 where r: "r = (fout, fs2)" by (cases r)
        note Some = Some [unfolded r]
        show ?thesis
        proof (cases "buflen < e_len e")
          case True
          with eb \<open>ok\<close> nover Some show ?thesis
            by (simp add: Let_def got_def fs1_def path_def del: length_take)
        next
          case False
          define s' where "s' = s\<lparr>us_buf := buf', us_buflen := buflen,
              us_fs := fs2\<lparr>d_nodes := (d_nodes fs2)(fout \<mapsto> DFile (buf_bytes env buf' (unat (e_len e))))\<rparr>,
              us_log := (us_log s @ [MkPath i path, SeekData i (e_ofs e)]) @ [ReadData i (length got)] @ [WriteFile i path]\<rparr>"
          from Cons.IH [of "Suc i" s'] obtain X where
            X: "us_log (snd (extract_files env inp dir es (Suc i) s')) = us_log s' @ X"
            "list_all is_extract_event X" by blast
          have "extract_files env inp dir (e # es) i s = extract_files env inp dir es (Suc i) s'"
            using eb \<open>ok\<close> nover Some False
            by (simp add: Let_def got_def fs1_def path_def s'_def buf'_def del: length_take)
          with X show ?thesis by (simp add: s'_def)
        qed
      qed
    qed
  qed
qed

lemma table_events_no_warning: "list_all is_table_event L \<Longrightarrow> filter is_warning L = []"
  by (induction L) (auto elim: is_table_event.elims)

lemma extract_events_no_warning: "list_all is_extract_event L \<Longrightarrow> filter is_warning L = []"
  by (induction L) (auto elim: is_extract_event.elims)







subsection \<open>The runs on the concrete inputs\<close>

lemmas str_defs = c_str_def strlen_def snprintf_path_def path_truncated_def PATH_SIZE_def
  MSF_MAX_NAMELEN_def slash_def dot_def backslash_def sizeof_msf_entry_def sizeof_msf_header_def

lemmas pack_defs = msf_pack_def Let_def write32be_def store32_def bswap32_def write8_def
  MSF_MAGIC_def ensure_buf_def realloc_def fopen_rb_def fread_into_def buf_bytes_def

lemmas unpack_defs = msf_unpack_def Let_def read32be_def read8_def fread_bytes_def load32_def bswap32_def
  MSF_MAGIC_def ensure_buf_def realloc_def fopen_wb_def fread_into_def buf_bytes_def
  mkpath_def mkdir_def target_def start_def

lemma read_table_numeral:
  "read_table env inp (numeral n) i pos = read_table env inp (Suc (pred_numeral n)) i pos"
  "read_table env inp 1 i pos = read_table env inp (Suc 0) i pos"
  by (simp_all only: numeral_eq_Suc One_nat_def)

lemma demo_pack:
  "msf_pack env_plain tree_demo (str ''d'') =
     \<lparr>pr_status = Returned (- 1), pr_out = demo_archive, pr_err = [],
      pr_ent = [\<lparr>e_ofs = 52, e_len = 11, e_namelen = 10, e_name = str ''readme.txt''\<rparr>,
                \<lparr>e_ofs = 63, e_len = 3, e_namelen = 12, e_name = str ''sub/data.bin''\<rparr>]\<rparr>"
  by (simp add: pack_defs str_defs env_plain_def tree_demo_def demo_archive_def str_def
      cong: let_weak_cong)

lemma locked_pack:
  "msf_pack env_plain tree_locked (str ''d'') =
     \<lparr>pr_status = Returned (- 1),
      pr_out = [0, 0, 3, 231, 0, 0, 0, 2, 0, 0, 0, 1, 0, 0, 0, 22, 0, 0, 0, 3, 1] @ str ''f'' @ [1, 2, 3],
      pr_err = [ErrOpenDir (str ''d/a'')],
      pr_ent = [\<lparr>e_ofs = 22, e_len = 3, e_namelen = 1, e_name = str ''f''\<rparr>]\<rparr>"
  by (simp add: pack_defs str_defs env_plain_def tree_locked_def str_def cong: let_weak_cong)

lemma long_walk:
  "msf_walk env_plain tree_long (str ''d'') 2 \<lparr>ws_ent = [], ws_datastart = 12, ws_err = []\<rparr> 0 =
     Inr (1, \<lparr>ws_ent = [\<lparr>e_ofs = 0, e_len = 3, e_namelen = 45, e_name = replicate 45 0x61\<rparr>],
              ws_datastart = 66, ws_err = []\<rparr>)"
  by (simp add: strlen_def snprintf_path_def path_truncated_def PATH_SIZE_def MSF_MAX_NAMELEN_def
      slash_def dot_def sizeof_msf_entry_def c_str_idem hidden_replicate env_plain_def tree_long_def
      str_def Let_def)

lemma long_pack:
  "msf_pack env_plain tree_long (str ''d'') =
     \<lparr>pr_status = Returned (- 1),
      pr_out = [0, 0, 3, 231, 0, 0, 0, 2, 0, 0, 0, 1, 0, 0, 0, 66, 0, 0, 0, 3, 45] @ replicate 45 0x61,
      pr_err = [ErrRead (str ''d/'' @ replicate 45 0x61)],
      pr_ent = [\<lparr>e_ofs = 66, e_len = 3, e_namelen = 45, e_name = replicate 45 0x61\<rparr>]\<rparr>"
proof -
  have b: "(of_nat (strlen (str ''d'')) + 1 :: u32) = 2"
    by (simp add: strlen_def c_str_idem str_def)
  have f: "fopen_rb tree_long (replicate 45 0x61) = None"
    by (simp add: fopen_rb_def split_on_no_sep slash_def tree_long_def)
  show ?thesis
    unfolding msf_pack_def b sizeof_msf_header_def long_walk
    by (simp add: Let_def write32be_def store32_def bswap32_def write8_def
      MSF_MAGIC_def ensure_buf_def realloc_def env_plain_def f c_str_idem strlen_def
      snprintf_path_def path_truncated_def PATH_SIZE_def MSF_MAX_NAMELEN_def slash_def str_def)
qed



section \<open>Pack followed by unpack\<close>

subsection \<open>The scan of a well-formed tree\<close>

lemma table_size_simps [simp]:
  "table_size [] = 0"
  "table_size (f # F) = 9 + length (fst f) + table_size F"
  "table_size (F @ G) = table_size F + table_size G"
  by (simp_all add: table_size_def)



subsection \<open>The paths of a well-formed tree\<close>

lemma split_on_append_sep:
  "d \<notin> set n \<Longrightarrow> split_on d (n @ d # y) = n # split_on d y"
  by (induction n) (auto split: list.splits)

lemma comps_name:
  assumes "slash \<notin> set n" and "n \<noteq> []" and "x = [] \<or> hd x = slash"
  shows "comps (n @ x) = n # comps x"
proof (cases x)
  case Nil
  with assms show ?thesis by (simp add: comps_def split_on_no_sep)
next
  case (Cons a y)
  with assms(3) have "x = slash # y" by simp
  with assms(1,2) show ?thesis by (simp add: comps_def split_on_append_sep)
qed

lemma good_name_last:
  assumes "good_name n"
  shows "last n \<noteq> slash"
proof
  assume "last n = slash"
  moreover from assms have "last n \<in> set n" by (simp add: good_name_def)
  ultimately show False using assms by (simp add: good_name_def)
qed

lemma comps_slash: "comps (slash # x) = comps x"
  by (simp add: comps_def)

lemma resolve_in_found:
  "(n, x) \<in> set es \<Longrightarrow> distinct (map fst es) \<Longrightarrow> resolve_in es n cs = resolve x cs"
proof (induction es)
  case Nil
  then show ?case by simp
next
  case (Cons a es)
  obtain m y where a: "a = (m, y)" by (cases a)
  show ?case
  proof (cases "m = n")
    case True
    with Cons.prems a have "(n, x) \<notin> set es" by (force simp add: image_iff)
    with Cons.prems a True show ?thesis by simp
  next
    case False
    with Cons a show ?thesis by simp
  qed
qed

lemma good_entries_distinct: "good_entries plen es \<Longrightarrow> distinct (map fst es)"
proof (induction es)
  case Nil
  show ?case by simp
next
  case (Cons a es)
  obtain n x where a: "a = (n, x)" by (cases a)
  with Cons.prems have "n \<notin> fst ` set es" and "good_entries plen es" by simp_all
  with Cons.IH a show ?case by simp
qed

lemma good_entries_member:
  "good_entries plen es \<Longrightarrow> (n, x) \<in> set es \<Longrightarrow>
     good_name n \<and> plen + length n \<le> MSF_MAX_NAMELEN \<and> good_node (plen + length n) x"
  by (induction es) (auto simp add: image_iff)

text \<open>Where the files of a tree are, and what opening their paths gives.\<close>

lemma files_resolve:
  "(rel, c) \<in> set (node_files node p) \<Longrightarrow> good_node plen node \<Longrightarrow>
     \<exists>x. rel = p @ x \<and> (x = [] \<or> hd x = slash) \<and> (x \<noteq> [] \<longrightarrow> last x \<noteq> slash) \<and>
         resolve node (comps x) = Some (Reg True c)"
  "(rel, c) \<in> set (entries_files es pre) \<Longrightarrow> good_entries plen es \<Longrightarrow>
     \<exists>n x. rel = pre @ n @ x \<and> n \<in> fst ` set es \<and> good_name n \<and> (x = [] \<or> hd x = slash) \<and>
         (x \<noteq> [] \<longrightarrow> last x \<noteq> slash) \<and> resolve_in es n (comps x) = Some (Reg True c)"
proof (induction node p and es pre arbitrary: plen and plen rule: node_files_entries_files.induct)
  case (1 r c' p)
  then show ?case by (auto simp add: comps_def)
next
  case (2 es p)
  from "2.prems" have "(rel, c) \<in> set (entries_files es (p @ [slash]))" and "good_entries (Suc plen) es"
    by simp_all
  from "2.IH" [OF this] obtain n x where
    a: "rel = (p @ [slash]) @ n @ x" "n \<in> fst ` set es" "good_name n" "x = [] \<or> hd x = slash"
      "x \<noteq> [] \<longrightarrow> last x \<noteq> slash" "resolve_in es n (comps x) = Some (Reg True c)"
    by blast
  have "comps (slash # n @ x) = n # comps x"
    using a(3,4) by (simp add: comps_slash comps_name good_name_def)
  moreover have "last (slash # n @ x) \<noteq> slash"
    using a(3,5) good_name_last [of n] by (cases "x = []") (auto simp add: good_name_def)
  ultimately show ?case
    using a by (intro exI [of _ "slash # n @ x"]) simp
next
  case (7 d_name node rest pre)
  from "7.prems"(2) have g: "good_name d_name" "d_name \<notin> fst ` set rest"
    "good_node (plen + length d_name) node" "good_entries plen rest"
    by simp_all
  from "7.prems"(1) consider (here) "(rel, c) \<in> set (node_files node (pre @ d_name))"
    | (there) "(rel, c) \<in> set (entries_files rest pre)"
    by auto
  then show ?case
  proof cases
    case here
    from "7.IH"(1) [OF here g(3)] obtain x where
      "rel = (pre @ d_name) @ x" "x = [] \<or> hd x = slash" "x \<noteq> [] \<longrightarrow> last x \<noteq> slash"
      "resolve node (comps x) = Some (Reg True c)"
      by blast
    with g(1) show ?thesis
      by (intro exI [of _ d_name] exI [of _ x]) simp
  next
    case there
    from "7.IH"(2) [OF there g(4)] obtain n x where
      a: "rel = pre @ n @ x" "n \<in> fst ` set rest" "good_name n" "x = [] \<or> hd x = slash"
      "x \<noteq> [] \<longrightarrow> last x \<noteq> slash" "resolve_in rest n (comps x) = Some (Reg True c)"
      by blast
    from a(2) g(2) have "d_name \<noteq> n" by auto
    with a show ?thesis
      by (intro exI [of _ n] exI [of _ x]) auto
  qed
qed simp_all








lemma files_nonempty:
  assumes "(rel, c) \<in> set (entries_files es [])" and "good_entries 0 es"
  shows "rel \<noteq> [] \<and> last rel \<noteq> slash"
proof -
  from files_resolve(2) [OF assms] obtain n x where
    a: "rel = n @ x" "good_name n" "x \<noteq> [] \<longrightarrow> last x \<noteq> slash"
    by auto
  then show ?thesis
    using good_name_last [of n] by (cases "x = []") (auto simp add: good_name_def)
qed

subsection \<open>What pack writes for a well-formed tree\<close>









subsection \<open>Reading back what pack wrote\<close>

lemma mask_ff: "(0xFF :: u32) = mask 8"
  by (simp add: mask_eq_exp_minus_1)

lemma mask_ff00: "(0xFF00 :: u32) = push_bit 8 (mask 8)"
  by (simp add: mask_eq_exp_minus_1 push_bit_eq_mult)

lemma mask_ff0000: "(0xFF0000 :: u32) = push_bit 16 (mask 8)"
  by (simp add: mask_eq_exp_minus_1 push_bit_eq_mult)

lemma mask_ff000000: "(0xFF000000 :: u32) = push_bit 24 (mask 8)"
  by (simp add: mask_eq_exp_minus_1 push_bit_eq_mult)

lemma bswap32_bswap32: "bswap32 (bswap32 v) = v"
  unfolding bswap32_def mask_ff mask_ff00 mask_ff0000 mask_ff000000
  apply (rule bit_word_eqI)
  apply (simp add: bit_simps)
  subgoal for n
    by (cases "n < 8"; cases "n < 16"; cases "n < 24"; simp add: not_less less_diff_conv2 le_diff_conv2)
  done

lemma load32_store32: "load32 (store32 v) = v"
  unfolding load32_def store32_def
  apply simp
  apply (rule bit_word_eqI)
  apply (simp add: bit_simps)
  subgoal for n
    by (cases "n < 8"; cases "n < 16"; cases "n < 24"; simp add: not_less less_diff_conv2 le_diff_conv2)
  done

lemma read32be_at:
  assumes "inp = A @ write32be v @ B" and "pos = length A"
  shows "read32be env inp pos = (v, pos + 4)"
proof -
  have "fread_bytes inp pos 4 = write32be v"
    using assms by (simp add: fread_bytes_def)
  then show ?thesis
    by (simp add: read32be_def Let_def) (simp add: write32be_def load32_store32 bswap32_bswap32)
qed

lemma read8_at:
  assumes "inp = A @ write8 v @ B" and "pos = length A"
  shows "read8 env inp pos = (v, pos + 1)"
  using assms by (simp add: read8_def fread_bytes_def write8_def)

lemma entry_with_ofs:
  "\<lparr>e_ofs = c, e_len = e_len e, e_namelen = e_namelen e, e_name = e_name e\<rparr> = e\<lparr>e_ofs := c\<rparr>"
  by (cases e) simp

lemma read_table_written:
  "names_sized es \<Longrightarrow> inp = A @ snd (write_table es c) @ B \<Longrightarrow> pos = length A \<Longrightarrow>
     fst (read_table env inp (length es) i pos) = fst (write_table es c) \<and>
     fst (snd (read_table env inp (length es) i pos)) = pos + length (snd (write_table es c))"
proof (induction es arbitrary: A c i pos)
  case Nil
  show ?case by simp
next
  case (Cons e es)
  define r where "r = write_table es (c + e_len e)"
  define X1 where "X1 = write32be (e_len e) @ write8 (e_namelen e) @ e_name e @ snd r @ B"
  define X2 where "X2 = write8 (e_namelen e) @ e_name e @ snd r @ B"
  define X3 where "X3 = e_name e @ snd r @ B"
  have inp: "inp = A @ write32be c @ X1"
    using Cons.prems(2) by (simp add: Let_def r_def X1_def)
  have ns: "length (e_name e) = unat (e_namelen e)" "names_sized es"
    using Cons.prems(1) by (simp_all add: names_sized_def)
  have r1: "read32be env inp pos = (c, pos + 4)"
    by (rule read32be_at [OF inp Cons.prems(3)])
  have r2: "read32be env inp (pos + 4) = (e_len e, pos + 4 + 4)"
    by (rule read32be_at [where A = "A @ write32be c" and B = X2])
      (simp_all add: inp X1_def X2_def Cons.prems(3))
  have r3: "read8 env inp (pos + 4 + 4) = (e_namelen e, pos + 4 + 4 + 1)"
    by (rule read8_at [where A = "A @ write32be c @ write32be (e_len e)" and B = X3])
      (simp_all add: inp X1_def X3_def Cons.prems(3))
  have nlong: "\<not> MSF_MAX_NAMELEN < unat (e_namelen e)"
    using byte_le_255 [of "e_namelen e"] by simp
  have nm: "fread_bytes inp (pos + 4 + 4 + 1) (unat (e_namelen e)) = e_name e"
    using ns(1) by (simp add: fread_bytes_def inp X1_def Cons.prems(3) write8_def)
  define pos' where "pos' = pos + 4 + 4 + 1 + length (e_name e)"
  have ih: "fst (read_table env inp (length es) (Suc i) pos') = fst r \<and>
     fst (snd (read_table env inp (length es) (Suc i) pos')) = pos' + length (snd r)"
    unfolding r_def
    by (rule Cons.IH [OF ns(2), where A = "A @ write32be c @ write32be (e_len e) @ write8 (e_namelen e) @ e_name e"])
      (simp_all add: inp X1_def r_def pos'_def Cons.prems(3))
  show ?case
    using r1 r2 r3 nlong nm ih [unfolded pos'_def]
    by (simp add: Let_def r_def [symmetric] entry_with_ofs ac_simps)
qed

subsection \<open>The table in the archive pack writes\<close>

lemma write_files_extends:
  "\<exists>X. fst (snd (write_files env root dirpath es b out err)) = out @ X"
proof (induction es arbitrary: b out err)
  case Nil
  show ?case by simp
next
  case (Cons e es)
  obtain ok buf buflen where eb: "ensure_buf env (e_len e) b = (ok, buf, buflen)"
    by (cases "ensure_buf env (e_len e) b")
  show ?case
  proof (cases ok)
    case False
    with eb show ?thesis by simp
  next
    case True
    show ?thesis
    proof (cases "path_truncated PATH_SIZE dirpath (e_name e)")
      case True
      with eb \<open>ok\<close> show ?thesis by simp
    next
      case nt: False
      show ?thesis
      proof (cases "fopen_rb root (c_str (e_name e))")
        case None
        with eb \<open>ok\<close> nt show ?thesis by simp
      next
        case (Some content)
        show ?thesis
        proof (cases "buflen < e_len e")
          case True
          with eb \<open>ok\<close> nt Some show ?thesis by simp
        next
          case False
          define buf' where "buf' = fread_into buf content (unat (e_len e))"
          from Cons.IH [of "(buf', buflen)" "out @ buf_bytes env buf' (unat (e_len e))" err]
          obtain X where "fst (snd (write_files env root dirpath es (buf', buflen)
              (out @ buf_bytes env buf' (unat (e_len e))) err))
            = (out @ buf_bytes env buf' (unat (e_len e))) @ X" by blast
          with eb \<open>ok\<close> nt Some False show ?thesis
            by (simp add: Let_def buf'_def)
        qed
      qed
    qed
  qed
qed

text \<open>
  What \<^verbatim>\<open>msf_unpack\<close> reads from the archive is the table \<^verbatim>\<open>msf_pack\<close> has in
  memory.
\<close>

lemma pack_archive_table:
  assumes "pr_out (msf_pack env root dirpath) \<noteq> []"
  shows "take 8 (pr_out (msf_pack env root dirpath)) = MSF_MAGIC \<and>
     unat (fst (read32be env' (pr_out (msf_pack env root dirpath)) 8))
       = length (pr_ent (msf_pack env root dirpath)) \<and>
     archive_table env' (pr_out (msf_pack env root dirpath)) = pr_ent (msf_pack env root dirpath)"
proof -
  let ?st0 = "\<lparr>ws_ent = [], ws_datastart = sizeof_msf_header, ws_err = []\<rparr>"
  let ?w = "msf_walk env root dirpath (of_nat (strlen dirpath) + 1) ?st0 0"
  from assms obtain n st where w: "?w = Inr (n, st)" and n: "n \<noteq> 0"
    by (auto simp add: msf_pack_def split: sum.splits if_splits)
  have inv: "names_sized (ws_ent st) \<and> count_ok n (ws_ent st)"
    by (rule walk_invariant(1) [OF w]) (simp_all add: names_sized_def count_ok_def)
  define t where "t = write_table (ws_ent st) (ws_datastart st)"
  have un: "unat n = length (ws_ent st)" using inv n by (simp add: count_ok_def)
  then have T: "take (unat n) (ws_ent st) = ws_ent st" by simp
  have ent: "pr_ent (msf_pack env root dirpath) = fst t"
    using w n by (simp add: msf_pack_def Let_def T t_def split: prod.splits)
  have "\<exists>X. pr_out (msf_pack env root dirpath) = (MSF_MAGIC @ write32be n @ snd t) @ X"
  proof (cases "int (unat (ws_datastart st)) \<noteq> int (length (MSF_MAGIC @ write32be n @ snd t))")
    case True
    with w n show ?thesis by (simp add: msf_pack_def Let_def T t_def)
  next
    case False
    obtain status out' err' where
      wf: "write_files env root dirpath (fst t) ([], 0) (MSF_MAGIC @ write32be n @ snd t) (ws_err st)
        = (status, out', err')"
      by (cases "write_files env root dirpath (fst t) ([], 0) (MSF_MAGIC @ write32be n @ snd t) (ws_err st)")
    from write_files_extends [of env root dirpath "fst t" "([], 0)" "MSF_MAGIC @ write32be n @ snd t" "ws_err st"]
    obtain X where "out' = (MSF_MAGIC @ write32be n @ snd t) @ X" using wf by auto
    moreover have "pr_out (msf_pack env root dirpath) = out'"
      using w n False wf by (simp add: msf_pack_def Let_def T t_def)
    ultimately show ?thesis by blast
  qed
  then obtain X where out: "pr_out (msf_pack env root dirpath) = MSF_MAGIC @ write32be n @ snd t @ X"
    by auto
  have magic: "take 8 (pr_out (msf_pack env root dirpath)) = MSF_MAGIC"
    by (simp add: out MSF_MAGIC_def)
  have cnt: "read32be env' (pr_out (msf_pack env root dirpath)) 8 = (n, 8 + 4)"
    by (rule read32be_at [where A = MSF_MAGIC and B = "snd t @ X"]) (simp_all add: out MSF_MAGIC_def)
  have "fst (read_table env' (pr_out (msf_pack env root dirpath)) (length (ws_ent st)) 0 12) = fst t"
    using read_table_written [where es = "ws_ent st" and A = "MSF_MAGIC @ write32be n" and B = X
        and c = "ws_datastart st" and inp = "pr_out (msf_pack env root dirpath)" and pos = 12
        and env = env' and i = 0] inv
    by (simp add: out t_def MSF_MAGIC_def)
  then have "archive_table env' (pr_out (msf_pack env root dirpath)) = fst t"
    by (simp add: archive_table_def cnt un)
  with magic cnt un ent show ?thesis by (simp add: t_def)
qed

text \<open>The offsets of the table \<^verbatim>\<open>msf_pack\<close> has in memory.\<close>

lemma pack_entries_offsets:
  assumes "pr_status (msf_pack env root dirpath) \<noteq> AssertFailed"
    and "pr_out (msf_pack env root dirpath) \<noteq> []"
  shows "pr_ent (msf_pack env root dirpath) \<noteq> [] \<and>
     unat (e_ofs (pr_ent (msf_pack env root dirpath) ! 0)) =
       unat sizeof_msf_header + (\<Sum>e\<leftarrow>pr_ent (msf_pack env root dirpath). 8 + 1 + unat (e_namelen e)) \<and>
     (\<forall>i. Suc i < length (pr_ent (msf_pack env root dirpath)) \<longrightarrow>
        e_ofs (pr_ent (msf_pack env root dirpath) ! Suc i) =
          e_ofs (pr_ent (msf_pack env root dirpath) ! i) + e_len (pr_ent (msf_pack env root dirpath) ! i))"
proof -
  let ?st0 = "\<lparr>ws_ent = [], ws_datastart = sizeof_msf_header, ws_err = []\<rparr>"
  let ?w = "msf_walk env root dirpath (of_nat (strlen dirpath) + 1) ?st0 0"
  from assms(2) obtain n st where w: "?w = Inr (n, st)" and n: "n \<noteq> 0"
    by (auto simp add: msf_pack_def split: sum.splits if_splits)
  have inv: "names_sized (ws_ent st) \<and> count_ok n (ws_ent st)"
    by (rule walk_invariant(1) [OF w]) (simp_all add: names_sized_def count_ok_def)
  define T where "T = take (unat n) (ws_ent st)"
  define t where "t = write_table T (ws_datastart st)"
  have T: "T = ws_ent st" using inv n by (simp add: T_def count_ok_def)
  have "unat n \<noteq> 0" using n by (simp add: unat_0_iff)
  with inv n have Tne: "T \<noteq> []" by (auto simp add: T count_ok_def)
  have ent: "pr_ent (msf_pack env root dirpath) = fst t"
    using w n by (simp add: msf_pack_def Let_def T_def t_def split: prod.splits)
  have "int (unat (ws_datastart st)) = int (length (MSF_MAGIC @ write32be n @ snd t))"
    using assms(1) w n by (simp add: msf_pack_def Let_def T_def t_def split: if_splits)
  then have "unat (ws_datastart st) = length (MSF_MAGIC @ write32be n @ snd t)"
    by (simp only: of_nat_eq_iff)
  then have "unat (ws_datastart st) = 12 + (\<Sum>e\<leftarrow>T. 4 * 2 + 1 + length (e_name e))"
    by (simp add: MSF_MAGIC_def t_def write_table_size)
  also have "(\<Sum>e\<leftarrow>T. 4 * 2 + 1 + length (e_name e)) = (\<Sum>e\<leftarrow>T. 8 + 1 + unat (e_namelen e))"
    using inv by (intro names_sized_sum) (simp add: T)
  also have "\<dots> = (\<Sum>e\<leftarrow>fst t. 8 + 1 + unat (e_namelen e))"
    by (rule sum_list_cong_map [where f = e_namelen and g = "\<lambda>v. 8 + 1 + unat v", symmetric])
      (simp add: t_def)
  finally have first: "unat (ws_datastart st)
      = unat sizeof_msf_header + (\<Sum>e\<leftarrow>fst t. 8 + 1 + unat (e_namelen e))"
    by (simp add: sizeof_msf_header_def)
  have ch: "chained (ws_datastart st) (fst t)"
    unfolding t_def by (rule write_table_chained)
  have ne: "fst t \<noteq> []"
    using Tne by (metis length_0_conv t_def write_table_length)
  from chained_first [OF ch ne] first chained_step [OF ch] ne show ?thesis
    by (simp add: ent)
qed

subsection \<open>Paths and their components\<close>











subsection \<open>Walks in the destination\<close>




lemma start_nodes [simp]: "start (fs\<lparr>d_nodes := nd\<rparr>) p = start fs p"
  by (simp add: start_def)







subsection \<open>What mkpath creates\<close>







subsection \<open>Writing the files to the destination\<close>












section \<open>The claims\<close>

subsection \<open>C1: the round trip\<close>




subsection \<open>C2: the status pack reports\<close>

text \<open>
  C2 says that a pack run in which the scan finds a file and every read and write
  succeeds reports success to the entry point. It does not: on the scenario of the
  specification \<^verbatim>\<open>msf_pack\<close> finds both files, prints no diagnostic and writes the
  whole archive, and returns \<^verbatim>\<open>-1\<close>, which \<^verbatim>\<open>main\<close> hands on as the exit status
  of \<^verbatim>\<open>msftool pack x.msf d\<close>. (\<^verbatim>\<open>msf_unpack\<close> sets \<^verbatim>\<open>ret = 0\<close> under the comment
  \<^verbatim>\<open>// success\<close> before its \<^verbatim>\<open>_end\<close> label; \<^verbatim>\<open>msf_pack\<close> has no such statement,
  and by \<open>msf_pack_status\<close> no run of it returns 0.)
\<close>

theorem pack_reports_failure_on_success:
  "msf_pack env_plain tree_demo (str ''d'') =
     \<lparr>pr_status = Returned (- 1), pr_out = demo_archive, pr_err = [],
      pr_ent = [\<lparr>e_ofs = 52, e_len = 11, e_namelen = 10, e_name = str ''readme.txt''\<rparr>,
                \<lparr>e_ofs = 63, e_len = 3, e_namelen = 12, e_name = str ''sub/data.bin''\<rparr>]\<rparr> \<and>
   main env_plain [str ''msftool'', str ''pack'', str ''x.msf'', str ''d''] sys_demo = Returned (- 1)"
proof -
  have "c_str (str ''pack'') = str_pack"
    by (simp add: c_str_def str_pack_def str_def)
  then show ?thesis
    by (simp add: demo_pack main_def sys_demo_def Let_def)
qed

subsection \<open>C3: the offsets of a packed table\<close>

text \<open>
  C3: whenever \<^verbatim>\<open>msf_pack\<close> has written header and table and its assertion
  \<^verbatim>\<open>datastart == ftell(f)\<close> held, the archive begins with the magic, and the table
  that the bytes of the archive hold, read back with the readers of \<^verbatim>\<open>msf_unpack\<close>
  in any environment, has as many entries as the count says and is not empty; the
  offset of its first entry is the size of the header plus the sum over all entries
  of \<open>8 + 1 + name_length\<close> (as numbers, without wrap-around), and the offset of each
  further entry is the offset of the entry before it plus that entry's length, in the
  \<^verbatim>\<open>uint32_t\<close> arithmetic of the two fields.
\<close>

theorem pack_table_offsets:
  assumes "pr_status (msf_pack env root dirpath) \<noteq> AssertFailed"
    and "pr_out (msf_pack env root dirpath) \<noteq> []"
  shows "take 8 (pr_out (msf_pack env root dirpath)) = MSF_MAGIC \<and>
     unat (fst (read32be env' (pr_out (msf_pack env root dirpath)) 8))
       = length (archive_table env' (pr_out (msf_pack env root dirpath))) \<and>
     archive_table env' (pr_out (msf_pack env root dirpath)) \<noteq> [] \<and>
     unat (e_ofs (archive_table env' (pr_out (msf_pack env root dirpath)) ! 0)) =
       unat sizeof_msf_header +
       (\<Sum>e\<leftarrow>archive_table env' (pr_out (msf_pack env root dirpath)). 8 + 1 + unat (e_namelen e)) \<and>
     (\<forall>i. Suc i < length (archive_table env' (pr_out (msf_pack env root dirpath))) \<longrightarrow>
        e_ofs (archive_table env' (pr_out (msf_pack env root dirpath)) ! Suc i) =
          e_ofs (archive_table env' (pr_out (msf_pack env root dirpath)) ! i) +
          e_len (archive_table env' (pr_out (msf_pack env root dirpath)) ! i))"
  using pack_archive_table [OF assms(2), of env'] pack_entries_offsets [OF assms]
  by simp

text \<open>
  On the scenario of the specification the archive holds the offsets 52 and 63: the
  first is \<open>12 + (9 + 10) + (9 + 12)\<close>, the second is \<open>52 + 11\<close>.
\<close>

theorem pack_table_offsets_witness:
  "pr_status (msf_pack env_plain tree_demo (str ''d'')) \<noteq> AssertFailed \<and>
   pr_out (msf_pack env_plain tree_demo (str ''d'')) \<noteq> [] \<and>
   map e_ofs (archive_table env_plain (pr_out (msf_pack env_plain tree_demo (str ''d'')))) = [52, 63] \<and>
   map e_len (archive_table env_plain (pr_out (msf_pack env_plain tree_demo (str ''d'')))) = [11, 3] \<and>
   map e_namelen (archive_table env_plain (pr_out (msf_pack env_plain tree_demo (str ''d'')))) = [10, 12] \<and>
   unat (e_ofs (archive_table env_plain (pr_out (msf_pack env_plain tree_demo (str ''d''))) ! 0)) =
     unat sizeof_msf_header +
     (\<Sum>e\<leftarrow>archive_table env_plain (pr_out (msf_pack env_plain tree_demo (str ''d''))).
        8 + 1 + unat (e_namelen e)) \<and>
   e_ofs (archive_table env_plain (pr_out (msf_pack env_plain tree_demo (str ''d''))) ! Suc 0) =
     e_ofs (archive_table env_plain (pr_out (msf_pack env_plain tree_demo (str ''d''))) ! 0) +
     e_len (archive_table env_plain (pr_out (msf_pack env_plain tree_demo (str ''d''))) ! 0)"
proof -
  have h1: "pr_status (msf_pack env_plain tree_demo (str ''d'')) \<noteq> AssertFailed"
    by (simp add: demo_pack)
  have h2: "pr_out (msf_pack env_plain tree_demo (str ''d'')) \<noteq> []"
    by (simp add: demo_pack demo_archive_def)
  have t: "archive_table env_plain (pr_out (msf_pack env_plain tree_demo (str ''d''))) =
      [\<lparr>e_ofs = 52, e_len = 11, e_namelen = 10, e_name = str ''readme.txt''\<rparr>,
       \<lparr>e_ofs = 63, e_len = 3, e_namelen = 12, e_name = str ''sub/data.bin''\<rparr>]"
    unfolding demo_pack
    by (simp add: archive_table_def unpack_defs str_defs env_plain_def demo_archive_def str_def
        read_table_numeral cong: let_weak_cong)
  have l: "Suc 0 < length (archive_table env_plain (pr_out (msf_pack env_plain tree_demo (str ''d''))))"
    by (simp add: t)
  have v: "map e_ofs (archive_table env_plain (pr_out (msf_pack env_plain tree_demo (str ''d'')))) = [52, 63]"
    "map e_len (archive_table env_plain (pr_out (msf_pack env_plain tree_demo (str ''d'')))) = [11, 3]"
    "map e_namelen (archive_table env_plain (pr_out (msf_pack env_plain tree_demo (str ''d'')))) = [10, 12]"
    by (simp_all add: t)
  from pack_table_offsets [OF h1 h2, of env_plain] h1 h2 l v show ?thesis by blast
qed

subsection \<open>C4: a wrong magic\<close>

text \<open>
  C4: on every stream whose first 8 bytes are not the magic (streams shorter than 8
  bytes among them), \<^verbatim>\<open>msf_unpack\<close> prints \<^verbatim>\<open>error: invalid MSF magic\<close> and returns
  \<^verbatim>\<open>-1\<close> after the one read of the magic: it reads nothing else, and leaves the
  destination as it found it.
\<close>

theorem unpack_rejects_bad_magic:
  assumes "take 8 inp \<noteq> MSF_MAGIC"
  shows "msf_unpack env inp dir fs =
           \<lparr>ur_status = Returned (- 1), ur_fs = fs, ur_log = [ReadMagic, Diag ErrMagic], ur_ent = []\<rparr>"
  using magic_pad [OF assms] by (simp add: msf_unpack_def Let_def)

theorem unpack_rejects_bad_magic_witness:
  "take 8 [1, 2, 3] \<noteq> MSF_MAGIC \<and>
   msf_unpack env_plain [1, 2, 3] (str ''out'') fs_out =
     \<lparr>ur_status = Returned (- 1), ur_fs = fs_out, ur_log = [ReadMagic, Diag ErrMagic], ur_ent = []\<rparr>"
proof -
  have h: "take 8 [1, 2, 3] \<noteq> MSF_MAGIC" by (simp add: MSF_MAGIC_def)
  from unpack_rejects_bad_magic [OF h] h show ?thesis by simp
qed

subsection \<open>C5: names longer than 255 bytes\<close>

text \<open>
  C5 says that pack rejects, or clamps with a diagnostic, a file whose relative path
  is longer than 255 bytes, and never stores a length obtained by silent overflow.
  It does neither: for the file with the 301-byte relative path the scanner stores
  \<^verbatim>\<open>namelen\<close> \<open>45 = 301 mod 256\<close> and the first 45 bytes of the path, and prints
  nothing; header and table are written with that entry. (The run fails later, when
  the data loop cannot open the 45-byte name.)
\<close>

theorem pack_long_name_wraps:
  "msf_walk env_plain tree_long (str ''d'') 2 \<lparr>ws_ent = [], ws_datastart = 12, ws_err = []\<rparr> 0 =
     Inr (1, \<lparr>ws_ent = [\<lparr>e_ofs = 0, e_len = 3, e_namelen = 45, e_name = replicate 45 0x61\<rparr>],
              ws_datastart = 66, ws_err = []\<rparr>) \<and>
   msf_pack env_plain tree_long (str ''d'') =
     \<lparr>pr_status = Returned (- 1),
      pr_out = [0, 0, 3, 231, 0, 0, 0, 2, 0, 0, 0, 1, 0, 0, 0, 66, 0, 0, 0, 3, 45] @ replicate 45 0x61,
      pr_err = [ErrRead (str ''d/'' @ replicate 45 0x61)],
      pr_ent = [\<lparr>e_ofs = 66, e_len = 3, e_namelen = 45, e_name = replicate 45 0x61\<rparr>]\<rparr>"
  using long_walk long_pack by simp

subsection \<open>C6: a scan that fails below the root\<close>

text \<open>
  C6 says that when a directory cannot be opened, root or subdirectory, the scan
  aborts and no byte of an archive is written. For a subdirectory it is not so: the
  failed \<^verbatim>\<open>msf_walk\<close> returns 0, the caller's loop stores that in \<^verbatim>\<open>fcount\<close> and goes
  on, and the file \<^verbatim>\<open>f\<close> that follows is packed. The diagnostic for \<^verbatim>\<open>d/a\<close> is
  printed, and header, table and data of a one-entry archive are written.
\<close>

theorem pack_goes_on_after_failed_subdir:
  "msf_pack env_plain tree_locked (str ''d'') =
     \<lparr>pr_status = Returned (- 1),
      pr_out = [0, 0, 3, 231, 0, 0, 0, 2, 0, 0, 0, 1, 0, 0, 0, 22, 0, 0, 0, 3, 1] @ str ''f'' @ [1, 2, 3],
      pr_err = [ErrOpenDir (str ''d/a'')],
      pr_ent = [\<lparr>e_ofs = 22, e_len = 3, e_namelen = 1, e_name = str ''f''\<rparr>]\<rparr>"
  by (rule locked_pack)

subsection \<open>C7: the table is read before any data\<close>



subsection \<open>C8: hidden entries\<close>

text \<open>
  C8: the scan of a tree is the scan of the tree without its hidden entries: count,
  table, \<^verbatim>\<open>datastart\<close> and diagnostics are the same whatever the entries whose name
  begins with \<^verbatim>\<open>.\<close> are and contain, at every depth; and so is the table
  \<^verbatim>\<open>msf_pack\<close> writes. No entry of the archive comes from a hidden entry.
\<close>

theorem scan_skips_hidden:
  "msf_walk env (strip_hidden root) dirpath baselen st fcount = msf_walk env root dirpath baselen st fcount \<and>
   pr_ent (msf_pack env (strip_hidden root) dirpath) = pr_ent (msf_pack env root dirpath)"
  by (simp add: msf_pack_def walk_strip_hidden Let_def split: sum.splits prod.splits)

subsection \<open>C9: the result of mkpath\<close>

text \<open>
  C9 says that \<^verbatim>\<open>mkpath\<close> returns success when at least one directory level was
  created or was already present, so in particular when all directory components
  exist. It does not: with the directories \<^verbatim>\<open>a\<close> and \<^verbatim>\<open>a/b\<close> present,
  \<^verbatim>\<open>mkpath("a/b/f")\<close> returns \<^verbatim>\<open>-1\<close>, since \<^verbatim>\<open>mkdir\<close> fails on a directory that
  exists.
\<close>

theorem mkpath_existing_counterexample:
  "lookup fs_ab (str ''a'') = Some DDir \<and> lookup fs_ab (str ''a/b'') = Some DDir \<and>
   fst (mkpath fs_ab (str ''a/b/f'') 493) = - 1"
  by (simp add: fs_ab_def lookup_def dir_at_def mkpath_def mkdir_def target_def start_def str_defs str_def)

text \<open>
  C9 as amended: \<^verbatim>\<open>mkpath\<close> returns 0 exactly when one of its \<^verbatim>\<open>mkdir\<close> calls
  succeeded, that is when the call created at least one directory that was not there
  before, and \<^verbatim>\<open>-1\<close> otherwise. When every proper prefix of the path that ends before
  a separator and is not empty names something that exists, it returns \<^verbatim>\<open>-1\<close> and
  changes nothing.
\<close>

theorem mkpath_success_iff_created:
  "(fst (mkpath fs path mode) = 0 \<longleftrightarrow>
      (\<exists>k. d_nodes fs k = None \<and> d_nodes (snd (mkpath fs path mode)) k = Some DDir)) \<and>
   (fst (mkpath fs path mode) = 0 \<or> fst (mkpath fs path mode) = - 1) \<and>
   ((\<forall>k < strlen path. c_str path ! k = slash \<or> c_str path ! k = backslash \<longrightarrow>
        k = 0 \<or> lookup fs (take k (c_str path)) \<noteq> None) \<longrightarrow>
      mkpath fs path mode = (- 1, fs))"
proof (intro conjI impI)
  show "fst (mkpath fs path mode) = 0 \<longleftrightarrow>
      (\<exists>k. d_nodes fs k = None \<and> d_nodes (snd (mkpath fs path mode)) k = Some DDir)"
    unfolding mkpath_def by (rule mkpath_loop_created)
  show "fst (mkpath fs path mode) = 0 \<or> fst (mkpath fs path mode) = - 1"
    unfolding mkpath_def by (rule mkpath_loop_status) simp
next
  assume a: "\<forall>k < strlen path. c_str path ! k = slash \<or> c_str path ! k = backslash \<longrightarrow>
        k = 0 \<or> lookup fs (take k (c_str path)) \<noteq> None"
  have "mkpath_loop fs mode [] (c_str path) (- 1) = (- 1, fs)"
  proof (rule mkpath_loop_present)
    fix k
    assume "k < length (c_str path)" and "c_str path ! k = slash \<or> c_str path ! k = backslash"
    with a have "k = 0 \<or> lookup fs (take k (c_str path)) \<noteq> None"
      unfolding strlen_def by blast
    then show "mkdir fs ([] @ take k (c_str path)) mode = (- 1, fs)"
    proof
      assume "k = 0"
      then show ?thesis by (simp add: mkdir_def target_def)
    next
      assume "lookup fs (take k (c_str path)) \<noteq> None"
      then show ?thesis by (simp add: mkdir_present)
    qed
  qed
  then show "mkpath fs path mode = (- 1, fs)" by (simp add: mkpath_def)
qed

text \<open>
  With only the root present \<^verbatim>\<open>mkpath("a/f")\<close> creates \<^verbatim>\<open>a\<close> and returns 0; with
  \<^verbatim>\<open>a\<close> and \<^verbatim>\<open>a/b\<close> present \<^verbatim>\<open>mkpath("/a//b/f")\<close> returns \<^verbatim>\<open>-1\<close> and changes
  nothing.
\<close>

theorem mkpath_success_iff_created_witness:
  "fst (mkpath fs_root (str ''a/f'') 493) = 0 \<and>
   d_nodes (snd (mkpath fs_root (str ''a/f'') 493)) [str ''a''] = Some DDir \<and>
   mkpath fs_ab (str ''/a//b/f'') 493 = (- 1, fs_ab)"
proof -
  have n: "d_nodes fs_root [str ''a''] = None"
    by (simp add: fs_root_def str_def)
  have d: "d_nodes (snd (mkpath fs_root (str ''a/f'') 493)) [str ''a''] = Some DDir"
    by (simp add: fs_root_def mkpath_def mkdir_def target_def start_def str_defs str_def)
  have e: "\<exists>k. d_nodes fs_root k = None \<and> d_nodes (snd (mkpath fs_root (str ''a/f'') 493)) k = Some DDir"
    using n d by blast
  have p: "\<forall>k < strlen (str ''/a//b/f'').
      c_str (str ''/a//b/f'') ! k = slash \<or> c_str (str ''/a//b/f'') ! k = backslash \<longrightarrow>
      k = 0 \<or> lookup fs_ab (take k (c_str (str ''/a//b/f''))) \<noteq> None"
  proof (intro allI impI)
    fix k :: nat
    assume "k < strlen (str ''/a//b/f'')"
    then have "k \<in> {0, 1, 2, 3, 4, 5, 6}" by (auto simp add: str_defs str_def)
    moreover assume "c_str (str ''/a//b/f'') ! k = slash \<or> c_str (str ''/a//b/f'') ! k = backslash"
    ultimately show "k = 0 \<or> lookup fs_ab (take k (c_str (str ''/a//b/f''))) \<noteq> None"
      by (auto simp add: str_defs fs_ab_def lookup_def dir_at_def start_def str_def)
  qed
  show ?thesis
    using mkpath_success_iff_created [of fs_root "str ''a/f''" 493]
      mkpath_success_iff_created [of fs_ab "str ''/a//b/f''" 493] e d p
    by blast
qed

subsection \<open>C10: the name length read by unpack\<close>

text \<open>
  C10: the name length \<^verbatim>\<open>msf_unpack\<close> reads is one byte, so whatever the stream is,
  the test \<^verbatim>\<open>namelen > MSF_MAX_NAMELEN\<close> is false for what \<^verbatim>\<open>read8\<close> returns, every
  entry of the table has a name length of at most 255, and no run prints the
  name-length warning.
\<close>

theorem unpack_namelen_never_clamped:
  "\<not> MSF_MAX_NAMELEN < unat (fst (read8 env inp pos)) \<and>
   list_all (\<lambda>e. unat (e_namelen e) \<le> MSF_MAX_NAMELEN) (ur_ent (msf_unpack env inp dir fs)) \<and>
   filter is_warning (ur_log (msf_unpack env inp dir fs)) = []"
proof -
  let ?r = "read32be env inp (length (fread_bytes inp 0 8))"
  let ?t = "read_table env inp (unat (fst ?r)) 0 (snd ?r)"
  let ?s0 = "\<lparr>us_buf = [], us_buflen = 0, us_fs = fs, us_log = [ReadMagic, ReadCount] @ snd (snd ?t)\<rparr>"
  obtain X where X: "us_log (snd (extract_files env inp dir (fst ?t) 0 ?s0)) = us_log ?s0 @ X"
    "list_all is_extract_event X"
    using extract_log by blast
  have a: "filter is_warning X = []"
    using X(2) by (rule extract_events_no_warning)
  have b: "filter is_warning (snd (snd ?t)) = []"
    using read_table_log_table by (rule table_events_no_warning)
  have c: "\<not> MSF_MAX_NAMELEN < unat (fst (read8 env inp pos))"
    using byte_le_255 [of "fst (read8 env inp pos)"] by simp
  show ?thesis
    using X(1) a b c read_table_namelen [of env inp "unat (fst ?r)" 0 "snd ?r"]
    by (simp add: msf_unpack_def Let_def)
qed

end
